theory Spec2Isabelle
  imports Complex_Main
begin

section \<open>Indices, index sets and diagnostics\<close>

text \<open>
  Modelled from the spec: the class Index is declared outside the files at hand. The
  spec describes it as an immutable identity (unique tag, dimension, prime level); two
  indices are equal iff tag and prime level match, and a tag fixes its dimension, so
  equality of the three fields is equality of indices.
\<close>

record Index =
  ind_id :: nat
  ind_m :: nat
  ind_plev :: nat

text \<open>An IndexSet is an ordered sequence of indices; \<open>r()\<close> is its length (a long).\<close>

type_synonym IndexSet = "Index list"

definition IndexSet_r :: "IndexSet \<Rightarrow> int" where
  "IndexSet_r inds = int (length inds)"

text \<open>
  What the code sends to the terminal with \<open>println\<close> before it calls \<open>Error\<close>:
  a caption followed by an IndexSet or by one Index.
\<close>

datatype printout = Println_IndexSet string IndexSet | Println_Index string Index

text \<open>
  \<open>Error(msg)\<close> throws; the exception is the value \<open>ITError\<close>, carrying the lines
  printed on the way and the message. \<open>OutOfRange\<close> stands for a read or write outside
  a container, which C++ leaves undefined.
\<close>

datatype error = ITError (printed: "printout list") (what: string) | OutOfRange

text \<open>
  Modelled from the spec: \<open>findindex\<close> (not in the files at hand) returns the position of
  the first entry equal to the given Index, or -1 when there is none; the caller tests
  \<open>jc >= 0\<close> and \<open>J1 < 0\<close>.
\<close>

fun findindex_from :: "int \<Rightarrow> IndexSet \<Rightarrow> Index \<Rightarrow> int" where
  "findindex_from j [] I = -1"
| "findindex_from j (x # xs) I = (if x = I then j else findindex_from (j + 1) xs I)"

definition findindex :: "IndexSet \<Rightarrow> Index \<Rightarrow> int" where
  "findindex inds I = findindex_from 0 inds I"

section \<open>Storage kinds and the store-mutation mediator\<close>

datatype ITReal = ITReal (data: "real list")

datatype ITCombiner = ITCombiner

datatype storage = StoreReal ITReal | StoreCombiner ITCombiner

text \<open>
  Modelled from the spec: ManageStore (not in the files at hand) lets a task install a
  brand-new storage in the result slot, declare that an operand's storage becomes the
  result, and ask whether new storage has been installed.
\<close>

datatype pointer_action = NoAction | AssignPointerRtoL | AssignPointerLtoR

record ManageStore =
  nd :: "storage option"
  action :: pointer_action

definition makeNewData :: "storage \<Rightarrow> ManageStore \<Rightarrow> ManageStore" where
  "makeNewData s m = m\<lparr>nd := Some s\<rparr>"

definition newData :: "ManageStore \<Rightarrow> bool" where
  "newData m = (nd m \<noteq> None)"

definition assignPointerRtoL :: "ManageStore \<Rightarrow> ManageStore" where
  "assignPointerRtoL m = m\<lparr>action := AssignPointerRtoL\<rparr>"

text \<open>
  Modelled from the spec: the storage the owning tensor holds after a binary task on the
  operands \<open>L\<close> and \<open>R\<close>: the new storage when one was installed, else the operand
  the mediator was told to take, else the left operand's storage as it was.
\<close>

definition result_store :: "ManageStore \<Rightarrow> storage \<Rightarrow> storage \<Rightarrow> storage" where
  "result_store m L R =
     (case nd m of
        Some s \<Rightarrow> s
      | None \<Rightarrow> (if action m = AssignPointerRtoL then R else L))"

section \<open>Single-storage tasks on a Combiner\<close>

type_synonym IndexVal = "Index \<times> int"

record GetElt =
  inds :: "IndexVal list"

datatype NormNoScale = NormNoScale
datatype Conj = Conj
datatype CalcDiv = CalcDiv

definition doTask_GetElt :: "GetElt \<Rightarrow> ITCombiner \<Rightarrow> error + complex" where
  "doTask_GetElt g c =
     (if length (inds g) \<noteq> 0
      then Inl (ITError [] ''GetElt not defined for non-scalar ITCombiner storage'')
      else Inr (Complex 1 0))"

definition doTask_NormNoScale :: "NormNoScale \<Rightarrow> ITCombiner \<Rightarrow> real" where
  "doTask_NormNoScale t d = 0"

text \<open>The body is empty: the storage after the call is the storage before it.\<close>

definition doTask_Conj :: "Conj \<Rightarrow> ITCombiner \<Rightarrow> ITCombiner" where
  "doTask_Conj t d = d"

text \<open>
  The type QN is declared outside the files at hand; its default-constructed value
  \<open>QN{}\<close> is the parameter \<open>QN_default\<close>.
\<close>

definition doTask_CalcDiv :: "'qn \<Rightarrow> CalcDiv \<Rightarrow> ITCombiner \<Rightarrow> 'qn" where
  "doTask_CalcDiv QN_default C d = QN_default"

section \<open>Builders, permutations and the dense layout\<close>

text \<open>
  Modelled from the spec: IndexSetBuilder (not in the files at hand) holds a fixed number
  of slots, \<open>setExtent(i,I)\<close> fills slot \<open>i\<close> and \<open>build()\<close> yields the IndexSet. A
  slot never filled holds a default-constructed Index; a write outside the slots is
  \<open>OutOfRange\<close>.
\<close>

type_synonym IndexSetBuilder = "Index option list"

definition IndexSetBuilder :: "int \<Rightarrow> IndexSetBuilder" where
  "IndexSetBuilder n = replicate (nat n) None"

definition setExtent :: "IndexSetBuilder \<Rightarrow> int \<Rightarrow> Index \<Rightarrow> error + IndexSetBuilder" where
  "setExtent b i I =
     (if 0 \<le> i \<and> i < int (length b) then Inr (b[nat i := Some I]) else Inl OutOfRange)"

definition Index_default :: Index where
  "Index_default = \<lparr>ind_id = 0, ind_m = 1, ind_plev = 0\<rparr>"

definition build :: "IndexSetBuilder \<Rightarrow> IndexSet" where
  "build b = map (\<lambda>s. case s of Some I \<Rightarrow> I | None \<Rightarrow> Index_default) b"

text \<open>
  The statement \<open>newind.setExtent(i++,I)\<close> run for each \<open>I\<close> of a list in turn; the
  result carries the counter \<open>i\<close>.
\<close>

fun setExtents :: "IndexSetBuilder \<Rightarrow> int \<Rightarrow> Index list \<Rightarrow> error + IndexSetBuilder \<times> int" where
  "setExtents b i [] = Inr (b, i)"
| "setExtents b i (I # Is) =
     (case setExtent b i I of
        Inl e \<Rightarrow> Inl e
      | Inr b' \<Rightarrow> setExtents b' (i + 1) Is)"

text \<open>
  Modelled from the spec: Permutation (not in the files at hand) maps each position to a
  destination; it starts as the identity, \<open>setFromTo(i,v)\<close> sets the destination of
  \<open>i\<close>, \<open>dest(j)\<close> reads it.
\<close>

type_synonym Permutation = "int list"

definition Permutation :: "int \<Rightarrow> Permutation" where
  "Permutation n = map int [0..<nat n]"

definition setFromTo :: "Permutation \<Rightarrow> int \<Rightarrow> int \<Rightarrow> Permutation" where
  "setFromTo P i v = P[nat i := v]"

definition dest :: "Permutation \<Rightarrow> int \<Rightarrow> int" where
  "dest P j = P ! nat j"

text \<open>
  Modelled from the spec: the dense layout (\<open>makeTenRef\<close>, \<open>Tensor\<close> are not in the
  files at hand). The spec's example stores the buffer row-major: with extents \<open>ns\<close> the
  element at the index values \<open>vs\<close> lies at \<open>offset ns vs\<close>, the last index running
  fastest; \<open>multi_index\<close> reads the index values back from a position.
\<close>

fun offset :: "nat list \<Rightarrow> nat list \<Rightarrow> nat" where
  "offset (n # ns) (v # vs) = v * prod_list ns + offset ns vs"
| "offset _ _ = 0"

fun multi_index :: "nat list \<Rightarrow> nat \<Rightarrow> nat list" where
  "multi_index [] k = []"
| "multi_index (n # ns) k = (k div prod_list ns) # multi_index ns (k mod prod_list ns)"

text \<open>The list whose entry at \<open>P.dest(j)\<close> is entry \<open>j\<close> of \<open>xs\<close>.\<close>

definition permute_list :: "Permutation \<Rightarrow> 'a list \<Rightarrow> 'a list" where
  "permute_list P xs = fold (\<lambda>j ys. ys[nat (P ! j) := xs ! j]) [0..<length xs] xs"

text \<open>
  Modelled from the spec: \<open>permute(tfrom,P)\<close> (not in the files at hand) is the tensor
  whose index at position \<open>P.dest(j)\<close> is index \<open>j\<close> of \<open>tfrom\<close>, with the same
  elements; the result is its buffer, from \<open>begin()\<close> to \<open>end()\<close>. The
  buffer \<open>d\<close> is read below the product of the extents \<open>ns\<close>, the length a dense
  tensor's buffer has.
\<close>

definition permute :: "real list \<Rightarrow> nat list \<Rightarrow> Permutation \<Rightarrow> real list" where
  "permute d ns P =
     (let pns = permute_list P ns
      in map (\<lambda>k. d ! offset ns (map (\<lambda>j. multi_index pns k ! nat (P ! j)) [0..<length ns]))
           [0..<prod_list pns])"

text \<open>
  The element of a dense tensor (buffer \<open>d\<close>, IndexSet \<open>is\<close>) at which every index
  \<open>I\<close> has the value \<open>\<sigma> I\<close>.
\<close>

definition elt :: "real list \<Rightarrow> IndexSet \<Rightarrow> (Index \<Rightarrow> nat) \<Rightarrow> real" where
  "elt d is \<sigma> = d ! offset (map ind_m is) (map \<sigma> is)"

section \<open>The combine algorithm\<close>

text \<open>
  Uncombining: the loop over \<open>j : count(dis.r())\<close>, which at \<open>j == jc\<close> writes
  \<open>Cis[1], Cis[2], ...\<close> and elsewhere writes \<open>dis[j]\<close>.
\<close>

fun uncombine_loop ::
  "IndexSet \<Rightarrow> IndexSet \<Rightarrow> int \<Rightarrow> nat list \<Rightarrow> IndexSetBuilder \<Rightarrow> int
     \<Rightarrow> error + IndexSetBuilder \<times> int" where
  "uncombine_loop dis Cis jc [] newind i = Inr (newind, i)"
| "uncombine_loop dis Cis jc (j # js) newind i =
     (case (if int j = jc then setExtents newind i (drop 1 Cis)
            else setExtents newind i [dis ! j]) of
        Inl e \<Rightarrow> Inl e
      | Inr (newind', i') \<Rightarrow> uncombine_loop dis Cis jc js newind' i')"

definition uncombining :: "IndexSet \<Rightarrow> IndexSet \<Rightarrow> int \<Rightarrow> error + IndexSet" where
  "uncombining dis Cis jc =
     (let newind = IndexSetBuilder (IndexSet_r dis + IndexSet_r Cis - 2)
      in case uncombine_loop dis Cis jc [0..<length dis] newind 0 of
           Inl e \<Rightarrow> Inl e
         | Inr (newind', i) \<Rightarrow> Inr (build newind'))"

text \<open>
  The loop that checks whether \<open>Cis[2], Cis[3], ...\<close> follow \<open>dis[J1]\<close> in \<open>dis\<close>:
  it returns the flag and the final value of the counter \<open>c\<close>.
\<close>

function contig_loop :: "IndexSet \<Rightarrow> IndexSet \<Rightarrow> int \<Rightarrow> int \<Rightarrow> bool \<times> int" where
  "contig_loop dis Cis j c =
     (if c < IndexSet_r Cis \<and> j < IndexSet_r dis
      then (if dis ! nat j \<noteq> Cis ! nat c then (False, c)
            else contig_loop dis Cis (j + 1) (c + 1))
      else (True, c))"
  by pat_completeness auto
termination
  by (relation "measure (\<lambda>(dis, Cis, j, c). nat (IndexSet_r Cis - c))") auto

declare contig_loop.simps [simp del]

definition contig_sameord :: "IndexSet \<Rightarrow> IndexSet \<Rightarrow> int \<Rightarrow> bool" where
  "contig_sameord dis Cis J1 =
     (case contig_loop dis Cis (J1 + 1) 2 of
        (flag, c) \<Rightarrow> (if c \<noteq> IndexSet_r Cis then False else flag))"

definition combining_contig :: "IndexSet \<Rightarrow> IndexSet \<Rightarrow> Index \<Rightarrow> int \<Rightarrow> error + IndexSet" where
  "combining_contig dis Cis cind J1 =
     (let newind = IndexSetBuilder (IndexSet_r dis + 2 - IndexSet_r Cis)
      in case setExtents newind 0 (map ((!) dis) [0..<nat J1]) of
           Inl e \<Rightarrow> Inl e
         | Inr (newind1, i1) \<Rightarrow>
             (case setExtents newind1 i1 [cind] of
                Inl e \<Rightarrow> Inl e
              | Inr (newind2, i2) \<Rightarrow>
                  (case setExtents newind2 i2
                          (map ((!) dis) [nat (J1 + IndexSet_r Cis - 1)..<nat (IndexSet_r dis)]) of
                     Inl e \<Rightarrow> Inl e
                   | Inr (newind3, i3) \<Rightarrow> Inr (build newind3))))"

text \<open>
  The loop over \<open>c : count(1,Cis.r())\<close>, run on the constituents \<open>Cis[1], Cis[2], ...\<close>:
  each is looked up in \<open>dis\<close> and sent to the next front position \<open>ni\<close>.
\<close>

fun front_loop ::
  "IndexSet \<Rightarrow> IndexSet \<Rightarrow> Index list \<Rightarrow> Permutation \<Rightarrow> int \<Rightarrow> error + Permutation \<times> int" where
  "front_loop dis Cis [] P ni = Inr (P, ni)"
| "front_loop dis Cis (I # Is) P ni =
     (let j = findindex dis I
      in if j < 0
         then Inl (ITError
                [Println_IndexSet ''IndexSet of dense tensor =\<newline>  '' dis,
                 Println_IndexSet ''IndexSet of combiner/delta =\<newline>  '' Cis,
                 Println_Index ''Missing index: '' I]
                ''Combiner: missing index'')
         else front_loop dis Cis Is (setFromTo P j ni) (ni + 1))"

text \<open>
  The loop over \<open>j : count(dis.r())\<close> that sends every position still marked -1 to the
  next position \<open>ni\<close> and writes its index to the builder.
\<close>

fun back_loop ::
  "IndexSet \<Rightarrow> nat list \<Rightarrow> Permutation \<Rightarrow> int \<Rightarrow> IndexSetBuilder \<Rightarrow> int
     \<Rightarrow> error + Permutation \<times> int \<times> IndexSetBuilder \<times> int" where
  "back_loop dis [] P ni newind i = Inr (P, ni, newind, i)"
| "back_loop dis (j # js) P ni newind i =
     (if dest P (int j) = -1
      then (case setExtents newind i [dis ! j] of
              Inl e \<Rightarrow> Inl e
            | Inr (newind', i') \<Rightarrow> back_loop dis js (setFromTo P (int j) ni) (ni + 1) newind' i')
      else back_loop dis js P ni newind i)"

text \<open>Lines 94 to 123: the permutation and the builder of the general case.\<close>

definition combine_permutation ::
  "IndexSet \<Rightarrow> IndexSet \<Rightarrow> Index \<Rightarrow> error + Permutation \<times> IndexSetBuilder" where
  "combine_permutation dis Cis cind =
     (let P0 = Permutation (IndexSet_r dis);
          P1 = fold (\<lambda>i P. setFromTo P (int i) (-1)) [0..<length P0] P0
      in case front_loop dis Cis (drop 1 Cis) P1 0 of
           Inl e \<Rightarrow> Inl e
         | Inr (P2, ni) \<Rightarrow>
             (let newind = IndexSetBuilder (IndexSet_r dis + 2 - IndexSet_r Cis)
              in case setExtents newind 0 [cind] of
                   Inl e \<Rightarrow> Inl e
                 | Inr (newind1, i) \<Rightarrow>
                     (case back_loop dis [0..<length dis] P2 ni newind1 i of
                        Inl e \<Rightarrow> Inl e
                      | Inr (P3, ni', newind2, i') \<Rightarrow> Inr (P3, newind2))))"

text \<open>
  \<open>combine\<close>: the result is the error, or the IndexSet written to \<open>Nis\<close> with the
  mediator after the call. The buffer \<open>d\<close> and the IndexSets \<open>dis\<close>, \<open>Cis\<close> are
  const references: they are read only. Reading \<open>Cis[0]\<close> of an empty \<open>Cis\<close>, or
  \<open>Cis[1]\<close> of a \<open>Cis\<close> with one entry, is \<open>OutOfRange\<close>. The three branches are
  \<open>uncombining\<close> (lines 40 to 56), \<open>combining_contig\<close> (lines 81 to 91) and
  \<open>combine_permutation\<close> followed by \<open>permute\<close> and \<open>makeNewData\<close> (lines 92 to 128).
\<close>

definition combine ::
  "ITReal \<Rightarrow> IndexSet \<Rightarrow> IndexSet \<Rightarrow> ManageStore \<Rightarrow> error + IndexSet \<times> ManageStore" where
  "combine d dis Cis m =
     (case Cis of
        [] \<Rightarrow> Inl OutOfRange
      | cind # _ \<Rightarrow>
          (let jc = findindex dis cind
           in if jc \<ge> 0
              then (case uncombining dis Cis jc of
                      Inl e \<Rightarrow> Inl e
                    | Inr Nis \<Rightarrow> Inr (Nis, m))
              else if IndexSet_r Cis < 2 then Inl OutOfRange
              else
                (let J1 = findindex dis (Cis ! 1)
                 in if J1 < 0
                    then Inl (ITError
                           [Println_IndexSet ''IndexSet of dense tensor = \<newline>'' dis,
                            Println_IndexSet ''IndexSet of combiner/delta = \<newline>'' Cis]
                           ''No contracted indices in combiner-tensor product'')
                    else if contig_sameord dis Cis J1
                    then (case combining_contig dis Cis cind J1 of
                            Inl e \<Rightarrow> Inl e
                          | Inr Nis \<Rightarrow> Inr (Nis, m))
                    else (case combine_permutation dis Cis cind of
                            Inl e \<Rightarrow> Inl e
                          | Inr (P, newind) \<Rightarrow>
                              Inr (build newind,
                                   makeNewData
                                     (StoreReal (ITReal (permute (data d) (map ind_m dis) P)))
                                     m)))))"

text \<open>The Contract task: the two input IndexSets and the output slot.\<close>

record Contract =
  Lis :: IndexSet
  Ris :: IndexSet
  Nis :: IndexSet

definition doTask_Contract_Real_Combiner ::
  "Contract \<Rightarrow> ITReal \<Rightarrow> ITCombiner \<Rightarrow> ManageStore \<Rightarrow> error + Contract \<times> ManageStore" where
  "doTask_Contract_Real_Combiner C d cmb m =
     (case combine d (Lis C) (Ris C) m of
        Inl e \<Rightarrow> Inl e
      | Inr (N, m') \<Rightarrow> Inr (C\<lparr>Nis := N\<rparr>, m'))"

definition doTask_Contract_Combiner_Real ::
  "Contract \<Rightarrow> ITCombiner \<Rightarrow> ITReal \<Rightarrow> ManageStore \<Rightarrow> error + Contract \<times> ManageStore" where
  "doTask_Contract_Combiner_Real C cmb d m =
     (case combine d (Ris C) (Lis C) m of
        Inl e \<Rightarrow> Inl e
      | Inr (N, m') \<Rightarrow>
          Inr (C\<lparr>Nis := N\<rparr>, if \<not> newData m' then assignPointerRtoL m' else m'))"

section \<open>Properties of the single-storage tasks\<close>

text \<open>
  C8: a GetElt task on a Combiner storage with a nonzero number of requested index values
  fails with the error "GetElt not defined for non-scalar ITCombiner storage" and returns
  no value.
\<close>

theorem getelt_combiner_nonscalar_fails:
  "inds g \<noteq> [] \<Longrightarrow>
     doTask_GetElt g c = Inl (ITError [] ''GetElt not defined for non-scalar ITCombiner storage'')
     \<and> (\<forall>z. doTask_GetElt g c \<noteq> Inr z)"
  by (simp add: doTask_GetElt_def)

theorem getelt_combiner_nonscalar_fails_witness:
  "inds \<lparr>inds = [(\<lparr>ind_id = 1, ind_m = 2, ind_plev = 0\<rparr>, 1)]\<rparr> \<noteq> []
   \<and> doTask_GetElt \<lparr>inds = [(\<lparr>ind_id = 1, ind_m = 2, ind_plev = 0\<rparr>, 1)]\<rparr> ITCombiner
       = Inl (ITError [] ''GetElt not defined for non-scalar ITCombiner storage'')"
  using getelt_combiner_nonscalar_fails
    [of "\<lparr>inds = [(\<lparr>ind_id = 1, ind_m = 2, ind_plev = 0\<rparr>, 1)]\<rparr>" ITCombiner]
  by simp

text \<open>
  C9: on every Combiner storage the norm-excluding-scale task returns 0, conjugation
  leaves the storage as it is, and the divergence task returns the default-constructed
  QN value.
\<close>

theorem combiner_trivial_tasks:
  "doTask_NormNoScale NormNoScale d = 0
   \<and> doTask_Conj Conj d = d
   \<and> doTask_CalcDiv QN_default C d = QN_default"
  by (simp add: doTask_NormNoScale_def doTask_Conj_def doTask_CalcDiv_def)

text \<open>
  C10: a GetElt task on a Combiner storage with no requested index value succeeds and
  returns the complex number 1 + 0i.
\<close>

theorem getelt_combiner_scalar:
  "inds g = [] \<Longrightarrow> doTask_GetElt g c = Inr (Complex 1 0)"
  by (simp add: doTask_GetElt_def)

theorem getelt_combiner_scalar_witness:
  "inds \<lparr>inds = []\<rparr> = [] \<and> doTask_GetElt \<lparr>inds = []\<rparr> ITCombiner = Inr (Complex 1 0)"
  using getelt_combiner_scalar [of "\<lparr>inds = []\<rparr>" ITCombiner]
  by simp

section \<open>Lookup, builder and loop lemmas\<close>

lemma findindex_from_eq:
  "findindex_from j xs I =
     (if I \<in> set xs then j + int (length (takeWhile (\<lambda>x. x \<noteq> I) xs)) else -1)"
  by (induction xs arbitrary: j) auto

lemma findindex_eq:
  "findindex xs I = (if I \<in> set xs then int (length (takeWhile (\<lambda>x. x \<noteq> I) xs)) else -1)"
  by (simp add: findindex_def findindex_from_eq)

lemma findindex_absent: "I \<notin> set xs \<Longrightarrow> findindex xs I = -1"
  by (simp add: findindex_eq)

lemma findindex_neg_iff: "findindex xs I < 0 \<longleftrightarrow> I \<notin> set xs"
  by (simp add: findindex_eq)

lemma findindex_present:
  assumes "I \<in> set xs"
  shows "0 \<le> findindex xs I" and "nat (findindex xs I) < length xs"
    and "xs ! nat (findindex xs I) = I"
    and "I \<notin> set (take (nat (findindex xs I)) xs)"
proof -
  let ?k = "length (takeWhile (\<lambda>x. x \<noteq> I) xs)"
  have f: "findindex xs I = int ?k" using assms by (simp add: findindex_eq)
  show "0 \<le> findindex xs I" by (simp add: f)
  have lt: "?k < length xs" using assms by (induction xs) auto
  then show "nat (findindex xs I) < length xs" by (simp add: f)
  have k: "nat (findindex xs I) = ?k" by (simp only: f nat_int)
  show "xs ! nat (findindex xs I) = I"
    unfolding k using nth_length_takeWhile [OF lt] by blast
  have "take ?k xs = takeWhile (\<lambda>x. x \<noteq> I) xs"
    by (rule takeWhile_eq_take [symmetric])
  then show "I \<notin> set (take (nat (findindex xs I)) xs)"
    using set_takeWhileD [of I "\<lambda>x. x \<noteq> I" xs] by (auto simp: f)
qed

lemma findindex_nth_distinct:
  "distinct xs \<Longrightarrow> j < length xs \<Longrightarrow> findindex xs (xs ! j) = int j"
  using findindex_present [of "xs ! j" xs]
  by (metis nth_eq_iff_index_eq nth_mem int_nat_eq)

lemma setExtents_fill:
  "setExtents (map Some xs @ replicate n None) (int (length xs)) Is =
     (if length Is \<le> n
      then Inr (map Some (xs @ Is) @ replicate (n - length Is) None, int (length xs + length Is))
      else Inl OutOfRange)"
proof (induction Is arbitrary: xs n)
  case Nil
  then show ?case by simp
next
  case (Cons I Is)
  show ?case
  proof (cases n)
    case 0
    then show ?thesis by (simp add: setExtent_def)
  next
    case (Suc k)
    have upd: "(map Some xs @ replicate n None)[length xs := Some I]
                 = map Some (xs @ [I]) @ replicate k None"
      by (simp add: Suc list_update_append)
    have one: "setExtent (map Some xs @ replicate n None) (int (length xs)) I
            = Inr (map Some (xs @ [I]) @ replicate k None)"
      using upd by (simp add: setExtent_def Suc)
    have ih: "setExtents (map Some (xs @ [I]) @ replicate k None) (int (length xs) + 1) Is =
       (if length Is \<le> k
        then Inr (map Some ((xs @ [I]) @ Is) @ replicate (k - length Is) None,
                  int (length (xs @ [I]) + length Is))
        else Inl OutOfRange)"
      using Cons.IH [of "xs @ [I]" k] by (simp add: add.commute)
    have "setExtents (map Some xs @ replicate n None) (int (length xs)) (I # Is)
            = setExtents (map Some (xs @ [I]) @ replicate k None) (int (length xs) + 1) Is"
      by (simp only: setExtents.simps one sum.case)
    then show ?thesis
      by (simp only: ih) (simp add: Suc)
  qed
qed

lemma map_nth_upt: "b \<le> length xs \<Longrightarrow> map ((!) xs) [a..<b] = take (b - a) (drop a xs)"
  by (rule nth_equalityI) auto

lemma uncombine_loop_fill:
  "uncombine_loop dis Cis jc js (map Some xs @ replicate n None) (int (length xs)) =
     (let items = concat (map (\<lambda>j. if int j = jc then drop 1 Cis else [dis ! j]) js)
      in if length items \<le> n
         then Inr (map Some (xs @ items) @ replicate (n - length items) None,
                   int (length xs + length items))
         else Inl OutOfRange)"
proof (induction js arbitrary: xs n)
  case Nil
  then show ?case by simp
next
  case (Cons j js)
  let ?it = "if int j = jc then drop 1 Cis else [dis ! j]"
  show ?case
  proof (cases "length ?it \<le> n")
    case True
    have s: "setExtents (map Some xs @ replicate n None) (int (length xs)) ?it
               = Inr (map Some (xs @ ?it) @ replicate (n - length ?it) None,
                      int (length (xs @ ?it)))"
      using True by (simp only: setExtents_fill if_True length_append)
    show ?thesis
      using s Cons.IH [of "xs @ ?it" "n - length ?it"] True
      by (auto simp: Let_def)
  next
    case False
    have s: "setExtents (map Some xs @ replicate n None) (int (length xs)) ?it = Inl OutOfRange"
      using False by (simp only: setExtents_fill if_False)
    show ?thesis using s False by (auto simp: Let_def)
  qed
qed

lemma concat_replace_at:
  assumes "jc < length dis"
  shows "concat (map (\<lambda>j. if j = jc then ys else [dis ! j]) [0..<length dis])
           = take jc dis @ ys @ drop (Suc jc) dis"
proof -
  have split: "[0..<length dis] = [0..<jc] @ [jc] @ [Suc jc..<length dis]"
    using assms by (metis append_Cons append_Nil le_add1 le_add_diff_inverse less_imp_le_nat upt_add_eq_append upt_conv_Cons plus_nat.add_0)
  have a: "concat (map (\<lambda>j. if j = jc then ys else [dis ! j]) [0..<jc]) = take jc dis"
  proof -
    have "concat (map (\<lambda>j. if j = jc then ys else [dis ! j]) [0..<jc])
            = concat (map (\<lambda>j. [dis ! j]) [0..<jc])"
      by (rule arg_cong [where f = concat]) simp
    also have "\<dots> = map ((!) dis) [0..<jc]" by simp
    also have "\<dots> = take jc dis" using assms by (simp add: map_nth_upt)
    finally show ?thesis .
  qed
  have b: "concat (map (\<lambda>j. if j = jc then ys else [dis ! j]) [Suc jc..<length dis])
             = drop (Suc jc) dis"
  proof -
    have "concat (map (\<lambda>j. if j = jc then ys else [dis ! j]) [Suc jc..<length dis])
            = concat (map (\<lambda>j. [dis ! j]) [Suc jc..<length dis])"
      by (rule arg_cong [where f = concat]) simp
    also have "\<dots> = map ((!) dis) [Suc jc..<length dis]"
      by simp
    also have "\<dots> = drop (Suc jc) dis" by (simp add: map_nth_upt)
    finally show ?thesis .
  qed
  show ?thesis by (simp only: split map_append concat_append a b) simp
qed

lemma findindex_first:
  assumes "j < length xs" "xs ! j = I" "I \<notin> set (take j xs)"
  shows "findindex xs I = int j"
proof -
  have mem: "I \<in> set xs" using assms(1,2) nth_mem by blast
  have xs: "xs = take j xs @ I # drop (Suc j) xs"
    using assms(1,2) id_take_nth_drop by blast
  have "takeWhile (\<lambda>x. x \<noteq> I) (take j xs @ I # drop (Suc j) xs) = take j xs"
    using assms(3) by (subst takeWhile_append2) auto
  then have "length (takeWhile (\<lambda>x. x \<noteq> I) xs) = j"
    using xs assms(1) by (metis length_take min.absorb2 less_imp_le_nat)
  then show ?thesis using mem by (simp add: findindex_eq)
qed

lemma uncombining_result:
  assumes "Cis \<noteq> []" "jc < length dis"
  shows "uncombining dis Cis (int jc) = Inr (take jc dis @ drop 1 Cis @ drop (Suc jc) dis)"
proof -
  let ?n = "length dis + length Cis - 2"
  let ?items = "concat (map (\<lambda>j. if int j = int jc then drop 1 Cis else [dis ! j]) [0..<length dis])"
  have items: "?items = take jc dis @ drop 1 Cis @ drop (Suc jc) dis"
    using concat_replace_at [OF assms(2), of "drop 1 Cis"] by simp
  have "length (take jc dis @ drop 1 Cis @ drop (Suc jc) dis) = ?n"
    using assms by (cases Cis) auto
  then have len: "length ?items = ?n"
    by (simp only: items)
  have b: "IndexSetBuilder (IndexSet_r dis + IndexSet_r Cis - 2) = map Some [] @ replicate ?n None"
    using assms by (cases Cis) (auto simp: IndexSetBuilder_def IndexSet_r_def nat_diff_distrib intro: arg_cong [where f = "\<lambda>n. replicate n None"])
  have "uncombine_loop dis Cis (int jc) [0..<length dis] (map Some [] @ replicate ?n None) (int (length ([]::Index list)))
          = Inr (map Some ?items @ replicate 0 None, int (length ?items))"
    unfolding uncombine_loop_fill Let_def using len by simp
  then have "uncombine_loop dis Cis (int jc) [0..<length dis] (IndexSetBuilder (IndexSet_r dis + IndexSet_r Cis - 2)) 0
          = Inr (map Some ?items, int (length ?items))"
    by (simp only: b) simp
  then have "uncombining dis Cis (int jc) = Inr (build (map Some ?items))"
    by (simp add: uncombining_def)
  also have "build (map Some ?items) = ?items"
    by (simp add: build_def comp_def)
  finally show ?thesis by (simp only: items)
qed

lemma combine_uncombine_case:
  assumes "Cis \<noteq> []" "jc < length dis" "dis ! jc = Cis ! 0" "Cis ! 0 \<notin> set (take jc dis)"
  shows "combine d dis Cis m = Inr (take jc dis @ drop 1 Cis @ drop (Suc jc) dis, m)"
proof -
  obtain cind rest where Cis: "Cis = cind # rest" using assms(1) by (cases Cis) auto
  have f: "findindex dis cind = int jc"
    using findindex_first [of jc dis cind] assms(2,3,4) by (simp add: Cis)
  show ?thesis
    using uncombining_result [OF assms(1,2)]
    by (simp add: combine_def Cis f)
qed

lemma contig_loop_nat:
  "c \<le> length Cis \<Longrightarrow>
     (contig_loop dis Cis (int j) (int c) = (True, int (length Cis)))
       \<longleftrightarrow> take (length Cis - c) (drop j dis) = drop c Cis"
proof (induction "length Cis - c" arbitrary: j c)
  case 0
  then have c: "c = length Cis" by simp
  show ?case
    by (subst contig_loop.simps) (simp add: c IndexSet_r_def)
next
  case (Suc k)
  then have cl: "c < length Cis" by simp
  have dc: "drop c Cis = Cis ! c # drop (Suc c) Cis"
    using cl by (simp add: Cons_nth_drop_Suc)
  show ?case
  proof (cases "j < length dis")
    case False
    then show ?thesis
      using cl by (subst contig_loop.simps) (auto simp: IndexSet_r_def)
  next
    case True
    have dj: "drop j dis = dis ! j # drop (Suc j) dis"
      using True by (simp add: Cons_nth_drop_Suc)
    have tk: "take (length Cis - c) (drop j dis) = dis ! j # take (length Cis - Suc c) (drop (Suc j) dis)"
      using cl by (simp add: dj take_Cons')
    show ?thesis
    proof (cases "dis ! j = Cis ! c")
      case False
      then show ?thesis
        using cl True by (subst contig_loop.simps) (auto simp: IndexSet_r_def tk dc)
    next
      case eq: True
      have ih: "(contig_loop dis Cis (int (Suc j)) (int (Suc c)) = (True, int (length Cis)))
                  \<longleftrightarrow> take (length Cis - Suc c) (drop (Suc j) dis) = drop (Suc c) Cis"
        using Suc.hyps(1) [of "Suc c" "Suc j"] Suc.hyps(2) cl by simp
      have step: "contig_loop dis Cis (int j) (int c) = contig_loop dis Cis (int (Suc j)) (int (Suc c))"
        using cl True eq by (subst contig_loop.simps) (simp add: IndexSet_r_def add.commute)
      show ?thesis
        by (simp only: step ih tk dc eq) simp
    qed
  qed
qed

lemma contig_sameord_iff:
  assumes "2 \<le> length Cis" "J1 < length dis" "dis ! J1 = Cis ! 1"
  shows "contig_sameord dis Cis (int J1) \<longleftrightarrow> take (length Cis - 1) (drop J1 dis) = drop 1 Cis"
proof -
  have a: "contig_sameord dis Cis (int J1)
             \<longleftrightarrow> contig_loop dis Cis (int (Suc J1)) (int 2) = (True, int (length Cis))"
    by (auto simp: contig_sameord_def IndexSet_r_def add.commute split: prod.splits)
  have b: "(contig_loop dis Cis (int (Suc J1)) (int 2) = (True, int (length Cis)))
             \<longleftrightarrow> take (length Cis - 2) (drop (Suc J1) dis) = drop 2 Cis"
    using assms(1) by (rule contig_loop_nat)
  have dj: "drop J1 dis = dis ! J1 # drop (Suc J1) dis"
    using assms(2) by (simp add: Cons_nth_drop_Suc)
  have dc: "drop 1 Cis = Cis ! 1 # drop 2 Cis"
    using assms(1) Cons_nth_drop_Suc [of 1 Cis] by (simp add: numeral_2_eq_2)
  have tk: "take (length Cis - 1) (drop J1 dis) = dis ! J1 # take (length Cis - 2) (drop (Suc J1) dis)"
    using assms(1) by (simp add: dj take_Cons' numeral_2_eq_2) 
  show ?thesis
    by (simp only: a b tk dc assms(3)) simp
qed

lemma build_map_Some: "build (map Some xs) = xs"
  by (simp add: build_def comp_def)

lemma combining_contig_result:
  assumes "2 \<le> length Cis" "take (length Cis - 1) (drop J1 dis) = drop 1 Cis"
  shows "combining_contig dis Cis cind (int J1)
           = Inr (take J1 dis @ [cind] @ drop (J1 + length Cis - 1) dis)"
proof -
  let ?k = "length Cis - 1"
  let ?n = "length dis + 2 - length Cis"
  have "length (take ?k (drop J1 dis)) = ?k"
    by (simp only: assms(2)) simp
  then have fit: "J1 + ?k \<le> length dis" using assms(1) by (simp add: min_def split: if_splits)
  have n: "?n = J1 + 1 + (length dis - (J1 + ?k))"
    using fit assms(1) by simp
  have b: "IndexSetBuilder (IndexSet_r dis + 2 - IndexSet_r Cis) = map Some [] @ replicate ?n None"
    using fit assms(1)
    by (auto simp: IndexSetBuilder_def IndexSet_r_def intro!: arg_cong [where f = "\<lambda>n. replicate n None"])
  have pre: "map ((!) dis) [0..<nat (int J1)] = take J1 dis"
    using fit by (simp add: map_nth_upt)
  have suf: "map ((!) dis) [nat (int J1 + IndexSet_r Cis - 1)..<nat (IndexSet_r dis)]
               = drop (J1 + ?k) dis"
  proof -
    have "nat (int J1 + IndexSet_r Cis - 1) = J1 + ?k"
      using assms(1) by (simp add: IndexSet_r_def)
    then show ?thesis by (simp add: IndexSet_r_def map_nth_upt)
  qed
  have l1: "length (take J1 dis) = J1" using fit by simp
  define b1 where "b1 = map Some (take J1 dis) @ replicate (?n - J1) None"
  define b2 where "b2 = map Some (take J1 dis @ [cind]) @ replicate (?n - J1 - 1) None"
  define b3 where "b3 = map Some ((take J1 dis @ [cind]) @ drop (J1 + ?k) dis)"
  have s1: "setExtents (map Some [] @ replicate ?n None) 0 (take J1 dis) = Inr (b1, int J1)"
    using setExtents_fill [of "[]" ?n "take J1 dis"] fit n l1
    by (simp add: b1_def)
  have s2: "setExtents b1 (int J1) [cind] = Inr (b2, int (J1 + 1))"
    using setExtents_fill [of "take J1 dis" "?n - J1" "[cind]"] fit n l1
    by (simp add: b1_def b2_def)
  have s3: "setExtents b2 (int (J1 + 1)) (drop (J1 + ?k) dis)
              = Inr (b3, int (J1 + 1 + length (drop (J1 + ?k) dis)))"
    using setExtents_fill [of "take J1 dis @ [cind]" "?n - J1 - 1" "drop (J1 + ?k) dis"] fit n l1
    by (simp add: b2_def b3_def)
  have "combining_contig dis Cis cind (int J1) = Inr (build b3)"
    unfolding combining_contig_def Let_def b pre suf
    by (simp only: s1 s2 s3 sum.case prod.case)
  then have "combining_contig dis Cis cind (int J1)
          = Inr (build (map Some ((take J1 dis @ [cind]) @ drop (J1 + ?k) dis)))"
    by (simp only: b3_def)
  then have "combining_contig dis Cis cind (int J1)
          = Inr ((take J1 dis @ [cind]) @ drop (J1 + ?k) dis)"
    by (simp only: build_map_Some)
  then show ?thesis
    using assms(1) by simp
qed

lemma contig_prefix_facts:
  assumes "2 \<le> length Cis" "take (length Cis - 1) (drop J1 dis) = drop 1 Cis"
  shows "J1 < length dis" and "dis ! J1 = Cis ! 1"
proof -
  have dc: "drop 1 Cis = Cis ! 1 # drop 2 Cis"
    using assms(1) Cons_nth_drop_Suc [of 1 Cis] by (simp add: numeral_2_eq_2)
  have ne: "drop J1 dis \<noteq> []"
    using assms(2) dc by auto
  then show lt: "J1 < length dis" by simp
  have "hd (take (length Cis - 1) (drop J1 dis)) = Cis ! 1"
    by (simp only: assms(2) dc list.sel)
  moreover have "hd (take (length Cis - 1) (drop J1 dis)) = dis ! J1"
    using assms(1) lt by (simp add: hd_drop_conv_nth)
  ultimately show "dis ! J1 = Cis ! 1" by simp
qed

lemma combine_contig_case:
  assumes "2 \<le> length Cis" "Cis ! 0 \<notin> set dis" "Cis ! 1 \<notin> set (take J1 dis)"
    and "take (length Cis - 1) (drop J1 dis) = drop 1 Cis"
  shows "combine d dis Cis m
           = Inr (take J1 dis @ [Cis ! 0] @ drop (J1 + length Cis - 1) dis, m)"
proof -
  obtain cind rest where Cis: "Cis = cind # rest" using assms(1) by (cases Cis) auto
  have lt: "J1 < length dis" and eq: "dis ! J1 = Cis ! 1"
    using contig_prefix_facts [OF assms(1,4)] by blast+
  have jc: "findindex dis cind = -1"
    using assms(2) by (simp add: findindex_absent Cis)
  have f: "findindex dis (Cis ! 1) = int J1"
    using findindex_first [OF lt eq assms(3)] .
  have cs: "contig_sameord dis Cis (int J1)"
    using contig_sameord_iff [OF assms(1) lt eq] assms(4) by blast
  have r: "\<not> IndexSet_r Cis < 2" using assms(1) by (simp add: IndexSet_r_def)
  have c0: "Cis ! 0 = cind" by (simp add: Cis)
  show ?thesis
    unfolding combine_def
    using combining_contig_result [OF assms(1,4), of cind] jc f cs r c0
    by (simp add: Cis)
qed

lemma offset_append:
  "length ns1 = length vs1 \<Longrightarrow>
     offset (ns1 @ ns) (vs1 @ vs) = offset ns1 vs1 * prod_list ns + offset ns vs"
proof (induction ns1 vs1 rule: list_induct2)
  case Nil
  then show ?case by simp
next
  case (Cons n ns1 v vs1)
  then show ?case by (simp add: algebra_simps)
qed

lemma offset_merge:
  assumes "length ns1 = length vs1" "length ns2 = length vs2"
  shows "offset (ns1 @ [prod_list ns2] @ ns3) (vs1 @ [offset ns2 vs2] @ vs3)
           = offset (ns1 @ ns2 @ ns3) (vs1 @ vs2 @ vs3)"
  using assms by (simp add: offset_append)

lemma combine_mediator:
  assumes "combine d dis Cis m = Inr (N, m')"
  shows "m' = m \<or> (\<exists>s. m' = makeNewData s m)"
  using assms
  by (auto simp: combine_def Let_def split: list.splits if_splits sum.splits prod.splits)

section \<open>The relabelling paths of combine\<close>

text \<open>
  C3: when \<open>dis\<close> holds the composite index \<open>Cis[0]\<close>, first at position \<open>jc\<close>,
  combine succeeds, the output IndexSet is \<open>dis\<close> with position \<open>jc\<close> replaced by
  \<open>Cis[1], Cis[2], ...\<close> in that order, its rank is \<open>dis.r()+Cis.r()-2\<close>, and the
  mediator is returned as it was: no buffer is permuted and no storage installed.
\<close>

theorem combine_uncombine_replaces_composite:
  assumes "Cis \<noteq> []" "jc < length dis" "dis ! jc = Cis ! 0" "Cis ! 0 \<notin> set (take jc dis)"
  shows "combine d dis Cis m = Inr (take jc dis @ drop 1 Cis @ drop (Suc jc) dis, m)
         \<and> IndexSet_r (take jc dis @ drop 1 Cis @ drop (Suc jc) dis)
             = IndexSet_r dis + IndexSet_r Cis - 2"
proof -
  have "length Cis \<ge> 1" using assms(1) by (cases Cis) auto
  then have "IndexSet_r (take jc dis @ drop 1 Cis @ drop (Suc jc) dis)
               = IndexSet_r dis + IndexSet_r Cis - 2"
    using assms(2) by (simp add: IndexSet_r_def)
  then show ?thesis
    using combine_uncombine_case [OF assms] by simp
qed

theorem combine_uncombine_replaces_composite_witness:
  "[\<lparr>ind_id = 4, ind_m = 6, ind_plev = 0\<rparr>, \<lparr>ind_id = 1, ind_m = 2, ind_plev = 0\<rparr>,
    \<lparr>ind_id = 2, ind_m = 3, ind_plev = 0\<rparr>] \<noteq> []
   \<and> (1::nat) < length [\<lparr>ind_id = 3, ind_m = 2, ind_plev = 0\<rparr>, \<lparr>ind_id = 4, ind_m = 6, ind_plev = 0\<rparr>]
   \<and> [\<lparr>ind_id = 3, ind_m = 2, ind_plev = 0\<rparr>, \<lparr>ind_id = 4, ind_m = 6, ind_plev = 0\<rparr>] ! 1
       = [\<lparr>ind_id = 4, ind_m = 6, ind_plev = 0\<rparr>, \<lparr>ind_id = 1, ind_m = 2, ind_plev = 0\<rparr>,
          \<lparr>ind_id = 2, ind_m = 3, ind_plev = 0\<rparr>] ! 0
   \<and> [\<lparr>ind_id = 4, ind_m = 6, ind_plev = 0\<rparr>, \<lparr>ind_id = 1, ind_m = 2, ind_plev = 0\<rparr>,
          \<lparr>ind_id = 2, ind_m = 3, ind_plev = 0\<rparr>] ! 0
       \<notin> set (take 1 [\<lparr>ind_id = 3, ind_m = 2, ind_plev = 0\<rparr>, \<lparr>ind_id = 4, ind_m = 6, ind_plev = 0\<rparr>])
   \<and> combine (ITReal [0, 1, 2, 3, 4, 5, 6, 7, 8, 9, 10, 11])
         [\<lparr>ind_id = 3, ind_m = 2, ind_plev = 0\<rparr>, \<lparr>ind_id = 4, ind_m = 6, ind_plev = 0\<rparr>]
         [\<lparr>ind_id = 4, ind_m = 6, ind_plev = 0\<rparr>, \<lparr>ind_id = 1, ind_m = 2, ind_plev = 0\<rparr>,
          \<lparr>ind_id = 2, ind_m = 3, ind_plev = 0\<rparr>]
         \<lparr>nd = None, action = NoAction\<rparr>
       = Inr ([\<lparr>ind_id = 3, ind_m = 2, ind_plev = 0\<rparr>, \<lparr>ind_id = 1, ind_m = 2, ind_plev = 0\<rparr>,
               \<lparr>ind_id = 2, ind_m = 3, ind_plev = 0\<rparr>],
              \<lparr>nd = None, action = NoAction\<rparr>)"
  using combine_uncombine_replaces_composite
    [of "[\<lparr>ind_id = 4, ind_m = 6, ind_plev = 0\<rparr>, \<lparr>ind_id = 1, ind_m = 2, ind_plev = 0\<rparr>,
          \<lparr>ind_id = 2, ind_m = 3, ind_plev = 0\<rparr>]"
        1
        "[\<lparr>ind_id = 3, ind_m = 2, ind_plev = 0\<rparr>, \<lparr>ind_id = 4, ind_m = 6, ind_plev = 0\<rparr>]"
        "ITReal [0, 1, 2, 3, 4, 5, 6, 7, 8, 9, 10, 11]"
        "\<lparr>nd = None, action = NoAction\<rparr>"]
  by simp

text \<open>
  C2: when the composite index is absent from \<open>dis\<close> and the constituents
  \<open>Cis[1], Cis[2], ...\<close> occupy the positions \<open>J1, J1+1, ...\<close> of \<open>dis\<close> in the
  order of \<open>Cis\<close> (\<open>J1\<close> the first position of \<open>Cis[1]\<close>), combine succeeds without
  touching the mediator and the output IndexSet is the prefix of \<open>dis\<close> before \<open>J1\<close>,
  the composite index, and the suffix of \<open>dis\<close> after the run. In the row-major layout,
  when the composite extent is the product of the constituents' extents, the element of
  the input at the index values \<open>vs\<close> lies at the position of the output where the
  composite index has the row-major rank of the constituents' values.
\<close>

theorem combine_contiguous_relabels:
  assumes "2 \<le> length Cis" "Cis ! 0 \<notin> set dis" "Cis ! 1 \<notin> set (take J1 dis)"
    and "take (length Cis - 1) (drop J1 dis) = drop 1 Cis"
  shows "combine d dis Cis m
           = Inr (take J1 dis @ [Cis ! 0] @ drop (J1 + length Cis - 1) dis, m)
         \<and> (ind_m (Cis ! 0) = prod_list (map ind_m (drop 1 Cis)) \<longrightarrow> length vs = length dis \<longrightarrow>
              offset (map ind_m (take J1 dis @ [Cis ! 0] @ drop (J1 + length Cis - 1) dis))
                     (take J1 vs @ [offset (map ind_m (drop 1 Cis)) (take (length Cis - 1) (drop J1 vs))]
                        @ drop (J1 + length Cis - 1) vs)
                = offset (map ind_m dis) vs)"
proof -
  let ?k = "length Cis - 1"
  have "length (take ?k (drop J1 dis)) = ?k"
    by (simp only: assms(4)) simp
  then have fit: "J1 + ?k \<le> length dis"
    using assms(1) by (simp add: min_def split: if_splits)
  have k: "J1 + length Cis - 1 = J1 + ?k" using assms(1) by simp
  have lin: "offset (map ind_m (take J1 dis @ [Cis ! 0] @ drop (J1 + ?k) dis))
                     (take J1 vs @ [offset (map ind_m (drop 1 Cis)) (take ?k (drop J1 vs))]
                        @ drop (J1 + ?k) vs)
                = offset (map ind_m dis) vs"
    if m: "ind_m (Cis ! 0) = prod_list (map ind_m (drop 1 Cis))" and l: "length vs = length dis"
  proof -
    have dis: "dis = take J1 dis @ drop 1 Cis @ drop (J1 + ?k) dis"
      by (metis assms(4) append_take_drop_id drop_drop add.commute)
    have vs: "vs = take J1 vs @ take ?k (drop J1 vs) @ drop (J1 + ?k) vs"
      by (metis append_take_drop_id drop_drop add.commute)
    have l1: "length (map ind_m (take J1 dis)) = length (take J1 vs)"
      using l by simp
    have l2: "length (map ind_m (drop 1 Cis)) = length (take ?k (drop J1 vs))"
      using l fit by simp
    have "offset (map ind_m (take J1 dis) @ [prod_list (map ind_m (drop 1 Cis))]
                    @ map ind_m (drop (J1 + ?k) dis))
                 (take J1 vs @ [offset (map ind_m (drop 1 Cis)) (take ?k (drop J1 vs))]
                    @ drop (J1 + ?k) vs)
            = offset (map ind_m (take J1 dis) @ map ind_m (drop 1 Cis)
                        @ map ind_m (drop (J1 + ?k) dis))
                     (take J1 vs @ take ?k (drop J1 vs) @ drop (J1 + ?k) vs)"
      by (rule offset_merge [OF l1 l2])
    also have "\<dots> = offset (map ind_m (take J1 dis @ drop 1 Cis @ drop (J1 + ?k) dis)) vs"
      using vs by simp
    also have "\<dots> = offset (map ind_m dis) vs"
      using dis by simp
    finally show ?thesis by (simp add: m)
  qed
  show ?thesis
    using combine_contig_case [OF assms] lin by (simp only: k) blast
qed

text \<open>
  The spec's example: A (extent 2), B (extent 3), C (extent 2) and the composite index
  (extent 6). Element \<open>[1,2,1]\<close> of the tensor on (A,B,C) is element \<open>[1*3+2, 1]\<close> of the
  result on (composite, C).
\<close>

theorem combine_contiguous_relabels_witness:
  "2 \<le> length [\<lparr>ind_id = 4, ind_m = 6, ind_plev = 0\<rparr>, \<lparr>ind_id = 1, ind_m = 2, ind_plev = 0\<rparr>,
                 \<lparr>ind_id = 2, ind_m = 3, ind_plev = 0\<rparr>]
   \<and> \<lparr>ind_id = 4, ind_m = 6, ind_plev = 0\<rparr>
       \<notin> set [\<lparr>ind_id = 1, ind_m = 2, ind_plev = 0\<rparr>, \<lparr>ind_id = 2, ind_m = 3, ind_plev = 0\<rparr>,
                \<lparr>ind_id = 3, ind_m = 2, ind_plev = 0\<rparr>]
   \<and> take 2 [\<lparr>ind_id = 1, ind_m = 2, ind_plev = 0\<rparr>, \<lparr>ind_id = 2, ind_m = 3, ind_plev = 0\<rparr>,
               \<lparr>ind_id = 3, ind_m = 2, ind_plev = 0\<rparr>]
       = drop 1 [\<lparr>ind_id = 4, ind_m = 6, ind_plev = 0\<rparr>, \<lparr>ind_id = 1, ind_m = 2, ind_plev = 0\<rparr>,
                 \<lparr>ind_id = 2, ind_m = 3, ind_plev = 0\<rparr>]
   \<and> ind_m \<lparr>ind_id = 4, ind_m = 6, ind_plev = 0\<rparr> = 2 * 3
   \<and> combine (ITReal [0, 1, 2, 3, 4, 5, 6, 7, 8, 9, 10, 11])
         [\<lparr>ind_id = 1, ind_m = 2, ind_plev = 0\<rparr>, \<lparr>ind_id = 2, ind_m = 3, ind_plev = 0\<rparr>,
          \<lparr>ind_id = 3, ind_m = 2, ind_plev = 0\<rparr>]
         [\<lparr>ind_id = 4, ind_m = 6, ind_plev = 0\<rparr>, \<lparr>ind_id = 1, ind_m = 2, ind_plev = 0\<rparr>,
          \<lparr>ind_id = 2, ind_m = 3, ind_plev = 0\<rparr>]
         \<lparr>nd = None, action = NoAction\<rparr>
       = Inr ([\<lparr>ind_id = 4, ind_m = 6, ind_plev = 0\<rparr>, \<lparr>ind_id = 3, ind_m = 2, ind_plev = 0\<rparr>],
              \<lparr>nd = None, action = NoAction\<rparr>)
   \<and> offset [6, 2] [1 * 3 + 2, 1] = offset [2, 3, 2] [1, 2, 1]"
  using combine_contiguous_relabels
    [of "[\<lparr>ind_id = 4, ind_m = 6, ind_plev = 0\<rparr>, \<lparr>ind_id = 1, ind_m = 2, ind_plev = 0\<rparr>,
          \<lparr>ind_id = 2, ind_m = 3, ind_plev = 0\<rparr>]"
        "[\<lparr>ind_id = 1, ind_m = 2, ind_plev = 0\<rparr>, \<lparr>ind_id = 2, ind_m = 3, ind_plev = 0\<rparr>,
          \<lparr>ind_id = 3, ind_m = 2, ind_plev = 0\<rparr>]"
        0
        "ITReal [0, 1, 2, 3, 4, 5, 6, 7, 8, 9, 10, 11]"
        "\<lparr>nd = None, action = NoAction\<rparr>"
        "[1, 2, 1]"]
  by simp

text \<open>The same example for every triple of index values.\<close>

lemma example_linearization:
  "offset (map ind_m [\<lparr>ind_id = 4, ind_m = 6, ind_plev = 0\<rparr>, \<lparr>ind_id = 3, ind_m = 2, ind_plev = 0\<rparr>])
          [a * 3 + b, c]
     = offset (map ind_m [\<lparr>ind_id = 1, ind_m = 2, ind_plev = 0\<rparr>,
                          \<lparr>ind_id = 2, ind_m = 3, ind_plev = 0\<rparr>,
                          \<lparr>ind_id = 3, ind_m = 2, ind_plev = 0\<rparr>]) [a, b, c]"
  by (simp add: algebra_simps)

text \<open>
  C6: on the two relabelling paths (the composite index is in \<open>dis\<close>; or it is absent and
  the constituents are contiguous in \<open>dis\<close> in the order of \<open>Cis\<close>) combine succeeds
  and returns the mediator it was given: \<open>makeNewData\<close> is not called. With a fresh
  mediator the storage of the result is therefore the dense operand's own storage.
\<close>

theorem relabeling_paths_install_no_storage:
  assumes "Cis \<noteq> []"
    and "Cis ! 0 \<in> set dis
         \<or> (2 \<le> length Cis \<and> Cis ! 1 \<notin> set (take J1 dis)
              \<and> take (length Cis - 1) (drop J1 dis) = drop 1 Cis)"
  shows "(\<exists>N. combine d dis Cis m = Inr (N, m))
         \<and> (nd m = None \<longrightarrow> action m = NoAction \<longrightarrow>
               result_store m (StoreReal d) (StoreCombiner cmb) = StoreReal d)"
proof -
  have store: "nd m = None \<longrightarrow> action m = NoAction \<longrightarrow>
                 result_store m (StoreReal d) (StoreCombiner cmb) = StoreReal d"
    by (simp add: result_store_def)
  have "\<exists>N. combine d dis Cis m = Inr (N, m)"
  proof (cases "Cis ! 0 \<in> set dis")
    case True
    let ?jc = "nat (findindex dis (Cis ! 0))"
    have "combine d dis Cis m = Inr (take ?jc dis @ drop 1 Cis @ drop (Suc ?jc) dis, m)"
      using findindex_present [OF True] assms(1) by (intro combine_uncombine_case) simp_all
    then show ?thesis by blast
  next
    case False
    then have c: "2 \<le> length Cis" "Cis ! 1 \<notin> set (take J1 dis)"
      "take (length Cis - 1) (drop J1 dis) = drop 1 Cis"
      using assms(2) by blast+
    show ?thesis
      using combine_contig_case [OF c(1) False c(2,3)] by blast
  qed
  then show ?thesis using store by (rule conjI)
qed

theorem relabeling_paths_install_no_storage_witness:
  "[\<lparr>ind_id = 4, ind_m = 6, ind_plev = 0\<rparr>, \<lparr>ind_id = 1, ind_m = 2, ind_plev = 0\<rparr>,
    \<lparr>ind_id = 2, ind_m = 3, ind_plev = 0\<rparr>] \<noteq> []
   \<and> [\<lparr>ind_id = 4, ind_m = 6, ind_plev = 0\<rparr>, \<lparr>ind_id = 1, ind_m = 2, ind_plev = 0\<rparr>,
       \<lparr>ind_id = 2, ind_m = 3, ind_plev = 0\<rparr>] ! 0
       \<in> set [\<lparr>ind_id = 3, ind_m = 2, ind_plev = 0\<rparr>, \<lparr>ind_id = 4, ind_m = 6, ind_plev = 0\<rparr>]
   \<and> (\<exists>N. combine (ITReal [0, 1, 2, 3, 4, 5, 6, 7, 8, 9, 10, 11])
              [\<lparr>ind_id = 3, ind_m = 2, ind_plev = 0\<rparr>, \<lparr>ind_id = 4, ind_m = 6, ind_plev = 0\<rparr>]
              [\<lparr>ind_id = 4, ind_m = 6, ind_plev = 0\<rparr>, \<lparr>ind_id = 1, ind_m = 2, ind_plev = 0\<rparr>,
               \<lparr>ind_id = 2, ind_m = 3, ind_plev = 0\<rparr>]
              \<lparr>nd = None, action = NoAction\<rparr>
            = Inr (N, \<lparr>nd = None, action = NoAction\<rparr>))
   \<and> result_store \<lparr>nd = None, action = NoAction\<rparr>
         (StoreReal (ITReal [0, 1, 2, 3, 4, 5, 6, 7, 8, 9, 10, 11])) (StoreCombiner ITCombiner)
       = StoreReal (ITReal [0, 1, 2, 3, 4, 5, 6, 7, 8, 9, 10, 11])"
  using relabeling_paths_install_no_storage
    [of "[\<lparr>ind_id = 4, ind_m = 6, ind_plev = 0\<rparr>, \<lparr>ind_id = 1, ind_m = 2, ind_plev = 0\<rparr>,
          \<lparr>ind_id = 2, ind_m = 3, ind_plev = 0\<rparr>]"
        "[\<lparr>ind_id = 3, ind_m = 2, ind_plev = 0\<rparr>, \<lparr>ind_id = 4, ind_m = 6, ind_plev = 0\<rparr>]"
        0
        "ITReal [0, 1, 2, 3, 4, 5, 6, 7, 8, 9, 10, 11]"
        "\<lparr>nd = None, action = NoAction\<rparr>"
        ITCombiner]
  by simp

section \<open>The two operand orders of the Contract task\<close>

lemma combine_action:
  assumes "combine d dis Cis m = Inr (N, m')"
  shows "action m' = action m"
  using combine_mediator [OF assms] by (auto simp: makeNewData_def)

text \<open>
  C5: when combine succeeds on \<open>d\<close>, \<open>dis\<close>, \<open>Cis\<close> from a mediator on which no operand
  was chosen yet, the task with the dense storage on the left and the task with the
  Combiner on the left both succeed with the same output IndexSet, and the storage of the
  result is the same for both; with the Combiner on the left the mediator is told to take
  the right operand's storage exactly when combine installed no new storage.
\<close>

theorem contract_operand_orders_agree:
  assumes "combine d dis Cis m = Inr (N, m')" and "action m = NoAction"
  shows "doTask_Contract_Real_Combiner \<lparr>Lis = dis, Ris = Cis, Nis = N0\<rparr> d cmb m
           = Inr (\<lparr>Lis = dis, Ris = Cis, Nis = N\<rparr>, m')
         \<and> doTask_Contract_Combiner_Real \<lparr>Lis = Cis, Ris = dis, Nis = N0\<rparr> cmb d m
           = Inr (\<lparr>Lis = Cis, Ris = dis, Nis = N\<rparr>,
                  if newData m' then m' else assignPointerRtoL m')
         \<and> result_store (if newData m' then m' else assignPointerRtoL m')
               (StoreCombiner cmb) (StoreReal d)
           = result_store m' (StoreReal d) (StoreCombiner cmb)"
proof -
  have a: "action m' = NoAction"
    using combine_action [OF assms(1)] assms(2) by simp
  have one: "doTask_Contract_Real_Combiner \<lparr>Lis = dis, Ris = Cis, Nis = N0\<rparr> d cmb m
               = Inr (\<lparr>Lis = dis, Ris = Cis, Nis = N\<rparr>, m')"
    using assms(1) by (simp add: doTask_Contract_Real_Combiner_def)
  have two: "doTask_Contract_Combiner_Real \<lparr>Lis = Cis, Ris = dis, Nis = N0\<rparr> cmb d m
               = Inr (\<lparr>Lis = Cis, Ris = dis, Nis = N\<rparr>,
                      if newData m' then m' else assignPointerRtoL m')"
    using assms(1) by (simp add: doTask_Contract_Combiner_Real_def)
  have three: "result_store (if newData m' then m' else assignPointerRtoL m')
                 (StoreCombiner cmb) (StoreReal d)
               = result_store m' (StoreReal d) (StoreCombiner cmb)"
    using a by (auto simp: result_store_def newData_def assignPointerRtoL_def split: option.splits)
  show ?thesis using one two three by blast
qed

theorem contract_operand_orders_agree_witness:
  "combine (ITReal [0, 1, 2, 3, 4, 5, 6, 7, 8, 9, 10, 11])
     [\<lparr>ind_id = 1, ind_m = 2, ind_plev = 0\<rparr>, \<lparr>ind_id = 2, ind_m = 3, ind_plev = 0\<rparr>,
      \<lparr>ind_id = 3, ind_m = 2, ind_plev = 0\<rparr>]
     [\<lparr>ind_id = 4, ind_m = 6, ind_plev = 0\<rparr>, \<lparr>ind_id = 1, ind_m = 2, ind_plev = 0\<rparr>,
      \<lparr>ind_id = 2, ind_m = 3, ind_plev = 0\<rparr>]
     \<lparr>nd = None, action = NoAction\<rparr>
     = Inr ([\<lparr>ind_id = 4, ind_m = 6, ind_plev = 0\<rparr>, \<lparr>ind_id = 3, ind_m = 2, ind_plev = 0\<rparr>],
            \<lparr>nd = None, action = NoAction\<rparr>)
   \<and> action \<lparr>nd = None, action = NoAction\<rparr> = NoAction
   \<and> doTask_Contract_Combiner_Real
         \<lparr>Lis = [\<lparr>ind_id = 4, ind_m = 6, ind_plev = 0\<rparr>, \<lparr>ind_id = 1, ind_m = 2, ind_plev = 0\<rparr>,
                 \<lparr>ind_id = 2, ind_m = 3, ind_plev = 0\<rparr>],
          Ris = [\<lparr>ind_id = 1, ind_m = 2, ind_plev = 0\<rparr>, \<lparr>ind_id = 2, ind_m = 3, ind_plev = 0\<rparr>,
                 \<lparr>ind_id = 3, ind_m = 2, ind_plev = 0\<rparr>],
          Nis = []\<rparr>
         ITCombiner (ITReal [0, 1, 2, 3, 4, 5, 6, 7, 8, 9, 10, 11])
         \<lparr>nd = None, action = NoAction\<rparr>
       = Inr (\<lparr>Lis = [\<lparr>ind_id = 4, ind_m = 6, ind_plev = 0\<rparr>, \<lparr>ind_id = 1, ind_m = 2, ind_plev = 0\<rparr>,
                      \<lparr>ind_id = 2, ind_m = 3, ind_plev = 0\<rparr>],
               Ris = [\<lparr>ind_id = 1, ind_m = 2, ind_plev = 0\<rparr>, \<lparr>ind_id = 2, ind_m = 3, ind_plev = 0\<rparr>,
                      \<lparr>ind_id = 3, ind_m = 2, ind_plev = 0\<rparr>],
               Nis = [\<lparr>ind_id = 4, ind_m = 6, ind_plev = 0\<rparr>, \<lparr>ind_id = 3, ind_m = 2, ind_plev = 0\<rparr>]\<rparr>,
              \<lparr>nd = None, action = AssignPointerRtoL\<rparr>)"
proof -
  let ?A = "\<lparr>ind_id = 1, ind_m = 2, ind_plev = 0\<rparr>"
  let ?B = "\<lparr>ind_id = 2, ind_m = 3, ind_plev = 0\<rparr>"
  let ?C = "\<lparr>ind_id = 3, ind_m = 2, ind_plev = 0\<rparr>"
  let ?K = "\<lparr>ind_id = 4, ind_m = 6, ind_plev = 0\<rparr>"
  let ?d = "ITReal [0, 1, 2, 3, 4, 5, 6, 7, 8, 9, 10, 11]"
  let ?m = "\<lparr>nd = None, action = NoAction\<rparr>"
  have c: "combine ?d [?A, ?B, ?C] [?K, ?A, ?B] ?m = Inr ([?K, ?C], ?m)"
    using combine_contig_case [of "[?K, ?A, ?B]" "[?A, ?B, ?C]" 0 ?d ?m] by simp
  have a: "action ?m = NoAction" by simp
  show ?thesis
    using contract_operand_orders_agree [OF c a, of "[]" ITCombiner] c
    by (simp add: newData_def assignPointerRtoL_def)
qed

section \<open>Missing constituents\<close>







section \<open>The permutation of the general case\<close>

lemma fold_mark_nth:
  "length (fold (\<lambda>i P. setFromTo P (int i) v) [0..<m] P) = length P
   \<and> (\<forall>j<length P. fold (\<lambda>i P. setFromTo P (int i) v) [0..<m] P ! j
                       = (if j < m then v else P ! j))"
proof (induction m)
  case 0
  then show ?case by simp
next
  case (Suc m)
  let ?Q = "fold (\<lambda>i P. setFromTo P (int i) v) [0..<m] P"
  have f: "fold (\<lambda>i P. setFromTo P (int i) v) [0..<Suc m] P = ?Q[m := v]"
    by (simp add: setFromTo_def)
  have l: "length ?Q = length P" using Suc by blast
  have "?Q[m := v] ! j = (if j < Suc m then v else P ! j)" if "j < length P" for j
  proof (cases "j = m")
    case True
    then show ?thesis using that l by simp
  next
    case False
    then have "?Q[m := v] ! j = ?Q ! j" by simp
    then show ?thesis using Suc that False by auto
  qed
  then show ?case unfolding f using l by simp
qed

lemma fold_mark_all:
  "fold (\<lambda>i P. setFromTo P (int i) v) [0..<length P] P = replicate (length P) v"
  using fold_mark_nth [of v "length P" P]
  by (intro nth_equalityI) auto

lemma findindex_Cons:
  "findindex (I # Is) x
     = (if I = x then 0 else if x \<in> set Is then 1 + findindex Is x else -1)"
  by (auto simp: findindex_eq)

lemma front_loop_result:
  assumes "distinct dis"
  shows "set Is \<subseteq> set dis \<Longrightarrow> distinct Is \<Longrightarrow> length P = length dis \<Longrightarrow>
         \<exists>P'. front_loop dis Cis Is P ni = Inr (P', ni + int (length Is))
              \<and> length P' = length dis
              \<and> (\<forall>j<length dis. P' ! j = (if dis ! j \<in> set Is
                                           then ni + findindex Is (dis ! j) else P ! j))"
proof (induction Is arbitrary: P ni)
  case Nil
  then show ?case by simp
next
  case (Cons I Is)
  let ?j0 = "nat (findindex dis I)"
  have I: "I \<in> set dis" using Cons.prems(1) by simp
  have j0: "0 \<le> findindex dis I" "?j0 < length dis" "dis ! ?j0 = I"
    using findindex_present [OF I] by simp_all
  let ?P1 = "setFromTo P (findindex dis I) ni"
  have len1: "length ?P1 = length dis" using Cons.prems(3) by (simp add: setFromTo_def)
  have step: "front_loop dis Cis (I # Is) P ni = front_loop dis Cis Is ?P1 (ni + 1)"
    using j0(1) by (simp add: Let_def)
  obtain P' where P': "front_loop dis Cis Is ?P1 (ni + 1) = Inr (P', ni + 1 + int (length Is))"
      "length P' = length dis"
      "\<forall>j<length dis. P' ! j = (if dis ! j \<in> set Is
                                 then ni + 1 + findindex Is (dis ! j) else ?P1 ! j)"
    using Cons.IH [of ?P1 "ni + 1"] Cons.prems(1,2) len1 by auto
  have nth: "P' ! j = (if dis ! j \<in> set (I # Is)
                       then ni + findindex (I # Is) (dis ! j) else P ! j)"
    if j: "j < length dis" for j
  proof (cases "dis ! j = I")
    case True
    then have "j = ?j0"
      using assms j j0(2,3) by (metis nth_eq_iff_index_eq)
    moreover have "I \<notin> set Is" using Cons.prems(2) by simp
    ultimately show ?thesis
      using P'(3) j True Cons.prems(3) by (simp add: setFromTo_def findindex_Cons)
  next
    case False
    then have "j \<noteq> ?j0" using j0(3) by blast
    then have "?P1 ! j = P ! j" by (simp add: setFromTo_def)
    then show ?thesis
      using P'(3) j False by (auto simp: findindex_Cons)
  qed
  have "front_loop dis Cis (I # Is) P ni = Inr (P', ni + int (length (I # Is)))"
    using step P'(1) by simp
  then show ?case using P'(2) nth by blast
qed

lemma back_loop_result:
  "distinct js \<Longrightarrow> \<forall>j\<in>set js. j < length P \<Longrightarrow>
   length (filter (\<lambda>t. P ! t = -1) js) \<le> r \<Longrightarrow>
   \<exists>P'. back_loop dis js P ni (map Some xs @ replicate r None) (int (length xs))
          = Inr (P', ni + int (length (filter (\<lambda>t. P ! t = -1) js)),
                 map Some (xs @ map ((!) dis) (filter (\<lambda>t. P ! t = -1) js))
                   @ replicate (r - length (filter (\<lambda>t. P ! t = -1) js)) None,
                 int (length xs + length (filter (\<lambda>t. P ! t = -1) js)))
        \<and> length P' = length P
        \<and> (\<forall>t<length P. t \<notin> set (filter (\<lambda>t. P ! t = -1) js) \<longrightarrow> P' ! t = P ! t)
        \<and> (\<forall>s<length (filter (\<lambda>t. P ! t = -1) js).
              P' ! (filter (\<lambda>t. P ! t = -1) js ! s) = ni + int s)"
proof (induction js arbitrary: P ni xs r)
  case Nil
  then show ?case by simp
next
  case (Cons j js)
  let ?sel = "filter (\<lambda>t. P ! t = -1) js"
  have jn: "j \<notin> set js" and djs: "distinct js" using Cons.prems(1) by simp_all
  have jl: "j < length P" and jsl: "\<forall>t\<in>set js. t < length P" using Cons.prems(2) by simp_all
  show ?case
  proof (cases "P ! j = -1")
    case False
    have sel: "filter (\<lambda>t. P ! t = -1) (j # js) = ?sel" using False by simp
    have step: "back_loop dis (j # js) P ni (map Some xs @ replicate r None) (int (length xs))
                  = back_loop dis js P ni (map Some xs @ replicate r None) (int (length xs))"
      using False by (simp add: dest_def)
    have r: "length ?sel \<le> r" using Cons.prems(3) False by simp
    show ?thesis
      unfolding sel step using Cons.IH [OF djs jsl r] .
  next
    case True
    let ?P1 = "setFromTo P (int j) ni"
    have P1: "?P1 = P[j := ni]" by (simp add: setFromTo_def)
    have same: "?P1 ! t = P ! t" if "t \<in> set js" for t
    proof -
      have "j \<noteq> t" using jn that by blast
      then show ?thesis by (simp add: P1)
    qed
    have sel1: "filter (\<lambda>t. ?P1 ! t = -1) js = ?sel"
      by (rule filter_cong) (simp_all add: same)
    have sel: "filter (\<lambda>t. P ! t = -1) (j # js) = j # ?sel" using True by simp
    have r: "Suc (length ?sel) \<le> r" using Cons.prems(3) True by simp
    then obtain r' where r': "r = Suc r'" by (cases r) auto
    have se: "setExtents (map Some xs @ replicate r None) (int (length xs)) [dis ! j]
                = Inr (map Some (xs @ [dis ! j]) @ replicate r' None, int (length (xs @ [dis ! j])))"
      using setExtents_fill [of xs r "[dis ! j]"] by (simp add: r')
    have step: "back_loop dis (j # js) P ni (map Some xs @ replicate r None) (int (length xs))
                  = back_loop dis js ?P1 (ni + 1)
                      (map Some (xs @ [dis ! j]) @ replicate r' None) (int (length (xs @ [dis ! j])))"
      using True by (simp only: back_loop.simps dest_def nat_int se sum.case prod.case) simp
    have len1: "\<forall>t\<in>set js. t < length ?P1" using jsl by (simp add: P1)
    have r1: "length (filter (\<lambda>t. ?P1 ! t = -1) js) \<le> r'"
      using r r' by (simp only: sel1)
    obtain P' where P':
      "back_loop dis js ?P1 (ni + 1)
          (map Some (xs @ [dis ! j]) @ replicate r' None) (int (length (xs @ [dis ! j])))
        = Inr (P', ni + 1 + int (length ?sel),
               map Some ((xs @ [dis ! j]) @ map ((!) dis) ?sel) @ replicate (r' - length ?sel) None,
               int (length (xs @ [dis ! j]) + length ?sel))"
      "length P' = length ?P1"
      "\<forall>t<length ?P1. t \<notin> set ?sel \<longrightarrow> P' ! t = ?P1 ! t"
      "\<forall>s<length ?sel. P' ! (?sel ! s) = ni + 1 + int s"
      using Cons.IH [OF djs len1 r1, of "ni + 1" "xs @ [dis ! j]"]
      unfolding sel1 by blast
    have lenP: "length P' = length P" using P'(2) by (simp add: P1)
    have unch: "\<forall>t<length P. t \<notin> set (j # ?sel) \<longrightarrow> P' ! t = P ! t"
      using P'(3) by (auto simp: P1)
    have jsel: "j \<notin> set ?sel" using jn by simp
    have atj: "P' ! j = ni"
      using P'(3) jl jsel by (simp add: P1)
    have news: "\<forall>s<length (j # ?sel). P' ! ((j # ?sel) ! s) = ni + int s"
    proof (intro allI impI)
      fix s assume "s < length (j # ?sel)"
      then show "P' ! ((j # ?sel) ! s) = ni + int s"
        using atj P'(4) by (cases s) auto
    qed
    have res: "back_loop dis (j # js) P ni (map Some xs @ replicate r None) (int (length xs))
                 = Inr (P', ni + int (length (j # ?sel)),
                        map Some (xs @ map ((!) dis) (j # ?sel)) @ replicate (r - length (j # ?sel)) None,
                        int (length xs + length (j # ?sel)))"
      unfolding step P'(1) by (simp add: r')
    show ?thesis
      unfolding sel using res lenP unch news by blast
  qed
qed

lemma rest_length:
  assumes "distinct dis" "distinct cs" "set cs \<subseteq> set dis"
  shows "length (filter (\<lambda>x. x \<notin> set cs) dis) + length cs = length dis"
proof -
  have "length (filter (\<lambda>x. x \<notin> set cs) dis) = card (set dis - set cs)"
    using assms(1) distinct_card [of "filter (\<lambda>x. x \<notin> set cs) dis"]
    by (simp add: set_diff_eq)
  also have "\<dots> = card (set dis) - card (set cs)"
    using assms(3) by (simp add: card_Diff_subset)
  finally have "length (filter (\<lambda>x. x \<notin> set cs) dis) = length dis - length cs"
    using assms(1,2) by (simp add: distinct_card)
  moreover have "length cs \<le> length dis"
    using assms by (metis card_mono distinct_card List.finite_set)
  ultimately show ?thesis by simp
qed

lemma filter_positions:
  "map ((!) dis) (filter (\<lambda>t. Q (dis ! t)) [0..<length dis]) = filter Q dis"
proof -
  have "filter Q (map ((!) dis) [0..<length dis])
          = map ((!) dis) (filter (Q \<circ> (!) dis) [0..<length dis])"
    by (rule filter_map)
  then show ?thesis by (simp add: map_nth comp_def)
qed

lemma combine_permutation_result:
  assumes "distinct dis" "distinct (drop 1 Cis)" "set (drop 1 Cis) \<subseteq> set dis" "Cis \<noteq> []"
  shows "\<exists>P. combine_permutation dis Cis cind
                = Inr (P, map Some (cind # filter (\<lambda>x. x \<notin> set (drop 1 Cis)) dis))
            \<and> length P = length dis
            \<and> (\<forall>j<length dis. dis ! j \<in> set (drop 1 Cis) \<longrightarrow>
                   P ! j = findindex (drop 1 Cis) (dis ! j))
            \<and> (\<forall>s<length (filter (\<lambda>x. x \<notin> set (drop 1 Cis)) dis).
                   P ! nat (findindex dis (filter (\<lambda>x. x \<notin> set (drop 1 Cis)) dis ! s))
                     = int (length (drop 1 Cis) + s))"
proof -
  let ?cs = "drop 1 Cis"
  let ?rest = "filter (\<lambda>x. x \<notin> set ?cs) dis"
  let ?n = "length dis"
  let ?P0 = "Permutation (IndexSet_r dis)"
  have lP0: "length ?P0 = ?n" by (simp add: Permutation_def IndexSet_r_def)
  have P1: "fold (\<lambda>i P. setFromTo P (int i) (-1)) [0..<length ?P0] ?P0 = replicate ?n (-1)"
    using fold_mark_all [of "-1" ?P0] by (simp only: lP0)
  obtain P2 where P2:
    "front_loop dis Cis ?cs (replicate ?n (-1)) 0 = Inr (P2, 0 + int (length ?cs))"
    "length P2 = ?n"
    "\<forall>j<?n. P2 ! j = (if dis ! j \<in> set ?cs then 0 + findindex ?cs (dis ! j)
                        else replicate ?n (-1) ! j)"
    using front_loop_result [OF assms(1,3,2), of "replicate ?n (-1)" Cis 0] by auto
  have P2c: "P2 ! j = findindex ?cs (dis ! j)" if "j < ?n" "dis ! j \<in> set ?cs" for j
    using P2(3) that by simp
  have P2n: "P2 ! j = -1" if "j < ?n" "dis ! j \<notin> set ?cs" for j
    using P2(3) that by simp
  have marked: "(P2 ! t = -1) = (dis ! t \<notin> set ?cs)" if "t \<in> set [0..<?n]" for t
  proof (cases "dis ! t \<in> set ?cs")
    case True
    have "t < ?n" using that by simp
    then have "P2 ! t = findindex ?cs (dis ! t)" using True by (rule P2c)
    moreover have "0 \<le> findindex ?cs (dis ! t)" using findindex_present(1) [OF True] .
    ultimately show ?thesis using True by simp
  next
    case False
    then show ?thesis using P2n that by simp
  qed
  let ?sel = "filter (\<lambda>t. P2 ! t = -1) [0..<?n]"
  have sel: "?sel = filter (\<lambda>t. dis ! t \<notin> set ?cs) [0..<?n]"
    by (rule filter_cong) (simp_all only: marked)
  have msel: "map ((!) dis) ?sel = ?rest"
    unfolding sel by (rule filter_positions)
  have lsel: "length ?sel = length ?rest"
    using msel by (metis length_map)
  have lrest: "length ?rest + length ?cs = ?n"
    using rest_length [OF assms(1,2,3)] .
  have lC: "1 \<le> length Cis" using assms(4) by (cases Cis) auto
  have b: "IndexSetBuilder (IndexSet_r dis + 2 - IndexSet_r Cis)
             = map Some [] @ replicate (Suc (length ?rest)) None"
  proof -
    have "length ?rest + (length Cis - 1) = ?n" using lrest by simp
    then have "int ?n + 2 - int (length Cis) = int (Suc (length ?rest))"
      using lC by linarith
    then have "nat (IndexSet_r dis + 2 - IndexSet_r Cis) = Suc (length ?rest)"
      unfolding IndexSet_r_def by (simp only: nat_int)
    then show ?thesis by (simp add: IndexSetBuilder_def)
  qed
  have s0: "setExtents (map Some [] @ replicate (Suc (length ?rest)) None) 0 [cind]
              = Inr (map Some [cind] @ replicate (length ?rest) None, int (length [cind]))"
    using setExtents_fill [of "[]" "Suc (length ?rest)" "[cind]"] by simp
  have d: "distinct [0..<?n]" by simp
  have inr: "\<forall>j\<in>set [0..<?n]. j < length P2" using P2(2) by simp
  have fit: "length ?sel \<le> length ?rest" using lsel by simp
  obtain P3 where P3:
    "back_loop dis [0..<?n] P2 (int (length ?cs)) (map Some [cind] @ replicate (length ?rest) None)
        (int (length [cind]))
      = Inr (P3, int (length ?cs) + int (length ?sel),
             map Some ([cind] @ map ((!) dis) ?sel) @ replicate (length ?rest - length ?sel) None,
             int (length [cind] + length ?sel))"
    "length P3 = length P2"
    "\<forall>t<length P2. t \<notin> set ?sel \<longrightarrow> P3 ! t = P2 ! t"
    "\<forall>s<length ?sel. P3 ! (?sel ! s) = int (length ?cs) + int s"
    using back_loop_result [OF d inr fit, of dis "int (length ?cs)" "[cind]"] by blast
  have bld: "map Some ([cind] @ map ((!) dis) ?sel) @ replicate (length ?rest - length ?sel) None
               = map Some (cind # ?rest)"
    by (simp only: msel lsel) simp
  have cp: "combine_permutation dis Cis cind = Inr (P3, map Some (cind # ?rest))"
    unfolding combine_permutation_def Let_def P1 b
    using P2(1) s0 P3(1) bld by simp
  have front: "P3 ! j = findindex ?cs (dis ! j)" if "j < ?n" "dis ! j \<in> set ?cs" for j
  proof -
    have "j \<notin> set ?sel" using that by (simp add: sel)
    then have "P3 ! j = P2 ! j" using P3(3) that(1) P2(2) by simp
    then show ?thesis using P2c [OF that] by simp
  qed
  have tail_pos: "P3 ! nat (findindex dis (?rest ! s)) = int (length ?cs + s)"
    if "s < length ?rest" for s
  proof -
    have s: "s < length ?sel" using that lsel by simp
    then have "?sel ! s \<in> set ?sel" by (rule nth_mem)
    then have lt: "?sel ! s < ?n" by simp
    have "?rest ! s = dis ! (?sel ! s)"
      using msel s by (metis nth_map)
    then have "findindex dis (?rest ! s) = int (?sel ! s)"
      using findindex_nth_distinct [OF assms(1) lt] by simp
    then show ?thesis using P3(4) s by simp
  qed
  show ?thesis
    using cp P3(2) P2(2) front tail_pos by auto
qed

lemma combine_general_case:
  assumes "distinct dis" "distinct Cis" "2 \<le> length Cis" "Cis ! 0 \<notin> set dis"
    and "set (drop 1 Cis) \<subseteq> set dis"
    and "take (length Cis - 1) (drop (nat (findindex dis (Cis ! 1))) dis) \<noteq> drop 1 Cis"
  shows "\<exists>P. combine_permutation dis Cis (Cis ! 0)
                = Inr (P, map Some (Cis ! 0 # filter (\<lambda>x. x \<notin> set (drop 1 Cis)) dis))
            \<and> length P = length dis
            \<and> (\<forall>j<length dis. dis ! j \<in> set (drop 1 Cis) \<longrightarrow>
                   P ! j = findindex (drop 1 Cis) (dis ! j))
            \<and> (\<forall>s<length (filter (\<lambda>x. x \<notin> set (drop 1 Cis)) dis).
                   P ! nat (findindex dis (filter (\<lambda>x. x \<notin> set (drop 1 Cis)) dis ! s))
                     = int (length (drop 1 Cis) + s))
            \<and> combine d dis Cis m
                = Inr (Cis ! 0 # filter (\<lambda>x. x \<notin> set (drop 1 Cis)) dis,
                       makeNewData (StoreReal (ITReal (permute (data d) (map ind_m dis) P))) m)"
proof -
  obtain cind rest where Cis: "Cis = cind # rest" using assms(3) by (cases Cis) auto
  have ne: "Cis \<noteq> []" using Cis by simp
  have dcs: "distinct (drop 1 Cis)" using assms(2) by (simp add: Cis)
  have r: "\<not> IndexSet_r Cis < 2" using assms(3) by (simp add: IndexSet_r_def)
  have jc: "\<not> findindex dis cind \<ge> 0"
    using assms(4) by (simp add: findindex_absent Cis)
  have in1: "Cis ! 1 \<in> set dis"
    using assms(3,5) by (metis Cons_nth_drop_Suc One_nat_def Suc_1 Suc_le_lessD list.set_intros(1) subsetD)
  have J1: "\<not> findindex dis (Cis ! 1) < 0" using in1 by (simp add: findindex_neg_iff)
  let ?J = "nat (findindex dis (Cis ! 1))"
  have J: "findindex dis (Cis ! 1) = int ?J" "?J < length dis" "dis ! ?J = Cis ! 1"
    using findindex_present [OF in1] by simp_all
  have "\<not> contig_sameord dis Cis (int ?J)"
    using contig_sameord_iff [OF assms(3) J(2,3)] assms(6) by blast
  then have nc: "\<not> contig_sameord dis Cis (findindex dis (Cis ! 1))" using J(1) by simp
  obtain P where P:
    "combine_permutation dis Cis cind
       = Inr (P, map Some (cind # filter (\<lambda>x. x \<notin> set (drop 1 Cis)) dis))"
    "length P = length dis"
    "\<forall>j<length dis. dis ! j \<in> set (drop 1 Cis) \<longrightarrow> P ! j = findindex (drop 1 Cis) (dis ! j)"
    "\<forall>s<length (filter (\<lambda>x. x \<notin> set (drop 1 Cis)) dis).
        P ! nat (findindex dis (filter (\<lambda>x. x \<notin> set (drop 1 Cis)) dis ! s))
          = int (length (drop 1 Cis) + s)"
    using combine_permutation_result [OF assms(1) dcs assms(5) ne, of cind] by blast
  have "combine d dis Cis m
          = (case combine_permutation dis Cis cind of
               Inl e \<Rightarrow> Inl e
             | Inr (P, newind) \<Rightarrow>
                 Inr (build newind,
                      makeNewData (StoreReal (ITReal (permute (data d) (map ind_m dis) P))) m))"
    unfolding combine_def using jc r J1 nc by (simp add: Cis)
  then have "combine d dis Cis m
          = Inr (cind # filter (\<lambda>x. x \<notin> set (drop 1 Cis)) dis,
                 makeNewData (StoreReal (ITReal (permute (data d) (map ind_m dis) P))) m)"
    by (simp only: P(1) sum.case prod.case build_map_Some)
  moreover have "Cis ! 0 = cind" by (simp add: Cis)
  ultimately show ?thesis using P by auto
qed

text \<open>
  C1: when the composite index is absent from \<open>dis\<close>, every constituent is in \<open>dis\<close>
  and the constituents are not contiguous in \<open>dis\<close> in the order of \<open>Cis\<close>, combine
  computes a permutation \<open>P\<close> that sends the position of \<open>Cis[c]\<close> to \<open>c-1\<close> and the
  position of the \<open>s\<close>-th other index of \<open>dis\<close> to \<open>Cis.r()-1+s\<close>; it installs through
  the mediator a new storage holding \<open>permute\<close> of the buffer by \<open>P\<close>, and the output
  IndexSet is the composite index followed by the other indices of \<open>dis\<close> in their order.
\<close>

theorem combine_general_permutes:
  assumes "distinct dis" "distinct Cis" "2 \<le> length Cis" "Cis ! 0 \<notin> set dis"
    and "set (drop 1 Cis) \<subseteq> set dis"
    and "take (length Cis - 1) (drop (nat (findindex dis (Cis ! 1))) dis) \<noteq> drop 1 Cis"
  shows "\<exists>P. combine_permutation dis Cis (Cis ! 0)
                = Inr (P, map Some (Cis ! 0 # filter (\<lambda>x. x \<notin> set (drop 1 Cis)) dis))
            \<and> length P = length dis
            \<and> (\<forall>c. 1 \<le> c \<and> c < length Cis \<longrightarrow>
                   P ! nat (findindex dis (Cis ! c)) = int c - 1)
            \<and> (\<forall>s<length (filter (\<lambda>x. x \<notin> set (drop 1 Cis)) dis).
                   P ! nat (findindex dis (filter (\<lambda>x. x \<notin> set (drop 1 Cis)) dis ! s))
                     = int (length Cis - 1 + s))
            \<and> combine d dis Cis m
                = Inr (Cis ! 0 # filter (\<lambda>x. x \<notin> set (drop 1 Cis)) dis,
                       makeNewData (StoreReal (ITReal (permute (data d) (map ind_m dis) P))) m)"
proof -
  let ?cs = "drop 1 Cis"
  let ?rest = "filter (\<lambda>x. x \<notin> set ?cs) dis"
  obtain P where P:
    "combine_permutation dis Cis (Cis ! 0) = Inr (P, map Some (Cis ! 0 # ?rest))"
    "length P = length dis"
    "\<forall>j<length dis. dis ! j \<in> set ?cs \<longrightarrow> P ! j = findindex ?cs (dis ! j)"
    "\<forall>s<length ?rest. P ! nat (findindex dis (?rest ! s)) = int (length ?cs + s)"
    "combine d dis Cis m
       = Inr (Cis ! 0 # ?rest,
              makeNewData (StoreReal (ITReal (permute (data d) (map ind_m dis) P))) m)"
    using combine_general_case [OF assms, of d m] by blast
  have dcs: "distinct ?cs" using assms(2) by (rule distinct_drop)
  have front: "P ! nat (findindex dis (Cis ! c)) = int c - 1" if c: "1 \<le> c \<and> c < length Cis" for c
  proof -
    have lt: "c - 1 < length ?cs" using c by (cases c) auto
    have eq: "?cs ! (c - 1) = Cis ! c" using c by simp
    then have mem: "Cis ! c \<in> set ?cs" using lt by (metis nth_mem)
    then have ind: "Cis ! c \<in> set dis" using assms(5) by blast
    let ?j = "nat (findindex dis (Cis ! c))"
    have j: "?j < length dis" "dis ! ?j = Cis ! c"
      using findindex_present [OF ind] by simp_all
    have "P ! ?j = findindex ?cs (dis ! ?j)" using P(3) j mem by simp
    also have "\<dots> = findindex ?cs (?cs ! (c - 1))" by (simp only: j(2) eq)
    also have "\<dots> = int (c - 1)" using dcs lt by (rule findindex_nth_distinct)
    finally show ?thesis using c by simp
  qed
  have k: "length ?cs = length Cis - 1" by simp
  show ?thesis
    using P(1,2,4,5) front unfolding k by blast
qed

theorem combine_general_permutes_witness:
  "distinct [\<lparr>ind_id = 2, ind_m = 3, ind_plev = 0\<rparr>, \<lparr>ind_id = 1, ind_m = 2, ind_plev = 0\<rparr>]
   \<and> distinct [\<lparr>ind_id = 4, ind_m = 6, ind_plev = 0\<rparr>, \<lparr>ind_id = 1, ind_m = 2, ind_plev = 0\<rparr>,
               \<lparr>ind_id = 2, ind_m = 3, ind_plev = 0\<rparr>]
   \<and> \<lparr>ind_id = 4, ind_m = 6, ind_plev = 0\<rparr>
       \<notin> set [\<lparr>ind_id = 2, ind_m = 3, ind_plev = 0\<rparr>, \<lparr>ind_id = 1, ind_m = 2, ind_plev = 0\<rparr>]
   \<and> findindex [\<lparr>ind_id = 2, ind_m = 3, ind_plev = 0\<rparr>, \<lparr>ind_id = 1, ind_m = 2, ind_plev = 0\<rparr>]
         \<lparr>ind_id = 1, ind_m = 2, ind_plev = 0\<rparr> = 1
   \<and> combine_permutation
         [\<lparr>ind_id = 2, ind_m = 3, ind_plev = 0\<rparr>, \<lparr>ind_id = 1, ind_m = 2, ind_plev = 0\<rparr>]
         [\<lparr>ind_id = 4, ind_m = 6, ind_plev = 0\<rparr>, \<lparr>ind_id = 1, ind_m = 2, ind_plev = 0\<rparr>,
          \<lparr>ind_id = 2, ind_m = 3, ind_plev = 0\<rparr>]
         \<lparr>ind_id = 4, ind_m = 6, ind_plev = 0\<rparr>
       = Inr ([1, 0], [Some \<lparr>ind_id = 4, ind_m = 6, ind_plev = 0\<rparr>])
   \<and> combine (ITReal [0, 1, 2, 3, 4, 5])
         [\<lparr>ind_id = 2, ind_m = 3, ind_plev = 0\<rparr>, \<lparr>ind_id = 1, ind_m = 2, ind_plev = 0\<rparr>]
         [\<lparr>ind_id = 4, ind_m = 6, ind_plev = 0\<rparr>, \<lparr>ind_id = 1, ind_m = 2, ind_plev = 0\<rparr>,
          \<lparr>ind_id = 2, ind_m = 3, ind_plev = 0\<rparr>]
         \<lparr>nd = None, action = NoAction\<rparr>
       = Inr ([\<lparr>ind_id = 4, ind_m = 6, ind_plev = 0\<rparr>],
              \<lparr>nd = Some (StoreReal (ITReal [0, 2, 4, 1, 3, 5])), action = NoAction\<rparr>)"
proof -
  let ?A = "\<lparr>ind_id = 1, ind_m = 2, ind_plev = 0\<rparr>"
  let ?B = "\<lparr>ind_id = 2, ind_m = 3, ind_plev = 0\<rparr>"
  let ?K = "\<lparr>ind_id = 4, ind_m = 6, ind_plev = 0\<rparr>"
  let ?d = "ITReal [0, 1, 2, 3, 4, 5]"
  let ?m = "\<lparr>nd = None, action = NoAction\<rparr>"
  have f: "findindex [?B, ?A] ?A = 1" by (simp add: findindex_def)
  have h1: "distinct [?B, ?A]" and h2: "distinct [?K, ?A, ?B]" and h3: "2 \<le> length [?K, ?A, ?B]"
    and h4: "[?K, ?A, ?B] ! 0 \<notin> set [?B, ?A]" and h5: "set (drop 1 [?K, ?A, ?B]) \<subseteq> set [?B, ?A]"
    and h6: "take (length [?K, ?A, ?B] - 1) (drop (nat (findindex [?B, ?A] ([?K, ?A, ?B] ! 1))) [?B, ?A])
               \<noteq> drop 1 [?K, ?A, ?B]"
    by (simp_all add: findindex_def)
  obtain P where P:
    "combine_permutation [?B, ?A] [?K, ?A, ?B] ([?K, ?A, ?B] ! 0)
       = Inr (P, map Some ([?K, ?A, ?B] ! 0 # filter (\<lambda>x. x \<notin> set (drop 1 [?K, ?A, ?B])) [?B, ?A]))"
    "combine ?d [?B, ?A] [?K, ?A, ?B] ?m
       = Inr ([?K, ?A, ?B] ! 0 # filter (\<lambda>x. x \<notin> set (drop 1 [?K, ?A, ?B])) [?B, ?A],
              makeNewData (StoreReal (ITReal (permute (data ?d) (map ind_m [?B, ?A]) P))) ?m)"
    using combine_general_permutes [OF h1 h2 h3 h4 h5 h6, of ?d ?m] by blast
  have cp: "combine_permutation [?B, ?A] [?K, ?A, ?B] ?K = Inr ([1, 0], [Some ?K])"
    by code_simp
  then have Peq: "P = [1, 0]" using P(1) by simp
  have pm: "permute [0, 1, 2, 3, 4, 5] [3, 2] [1, 0] = [0, 2, 4, 1, 3, 5]"
    by code_simp
  show ?thesis
    using P(2) cp f h1 h2 h4 unfolding Peq by (simp add: makeNewData_def pm)
qed

section \<open>Permuting a list and a buffer\<close>

lemma fold_update_length:
  "length (fold (\<lambda>j ys. ys[g j := h j]) js ys) = length ys"
  by (induction js arbitrary: ys) simp_all

lemma fold_update_other:
  "k \<notin> g ` set js \<Longrightarrow> fold (\<lambda>j ys. ys[g j := h j]) js ys ! k = ys ! k"
  by (induction js arbitrary: ys) auto

lemma fold_update_nth:
  "distinct js \<Longrightarrow> inj_on g (set js) \<Longrightarrow> \<forall>j\<in>set js. g j < length ys \<Longrightarrow> j \<in> set js \<Longrightarrow>
     fold (\<lambda>j ys. ys[g j := h j]) js ys ! g j = h j"
proof (induction js arbitrary: ys)
  case Nil
  then show ?case by simp
next
  case (Cons i js)
  show ?case
  proof (cases "j = i")
    case True
    have "g i \<notin> g ` set js"
      using Cons.prems(1,2) by (auto simp: inj_on_def)
    then have "fold (\<lambda>j ys. ys[g j := h j]) js (ys[g i := h i]) ! g i = ys[g i := h i] ! g i"
      by (rule fold_update_other)
    then show ?thesis using True Cons.prems(3) by simp
  next
    case False
    then have j: "j \<in> set js" using Cons.prems(4) by simp
    have "fold (\<lambda>j ys. ys[g j := h j]) js (ys[g i := h i]) ! g j = h j"
      using Cons.prems(1,2,3) j by (intro Cons.IH) (auto simp: inj_on_def)
    then show ?thesis by simp
  qed
qed

lemma permute_list_length: "length (permute_list P xs) = length xs"
  by (simp add: permute_list_def fold_update_length)

lemma permute_list_nth:
  assumes "\<forall>j<length xs. nat (P ! j) < length xs" "inj_on (\<lambda>j. nat (P ! j)) {0..<length xs}"
    and "j < length xs"
  shows "permute_list P xs ! nat (P ! j) = xs ! j"
  unfolding permute_list_def
  using assms by (intro fold_update_nth) simp_all

lemma fold_update_map:
  "\<forall>j\<in>set js. j < length xs \<Longrightarrow>
     fold (\<lambda>j ys. ys[g j := map f xs ! j]) js (map f ys0)
       = map f (fold (\<lambda>j ys. ys[g j := xs ! j]) js ys0)"
proof (induction js arbitrary: ys0)
  case Nil
  then show ?case by simp
next
  case (Cons i js)
  have "(map f ys0)[g i := map f xs ! i] = map f (ys0[g i := xs ! i])"
    using Cons.prems by (simp add: map_update)
  then show ?case using Cons by simp
qed

lemma permute_list_map: "permute_list P (map f xs) = map f (permute_list P xs)"
  unfolding permute_list_def
  using fold_update_map [of "[0..<length xs]" xs "\<lambda>j. nat (P ! j)" f xs] by simp

lemma offset_less: "list_all2 (<) vs ns \<Longrightarrow> offset ns vs < prod_list ns"
proof (induction vs ns rule: list_all2_induct)
  case Nil
  then show ?case by simp
next
  case (Cons v vs n ns)
  have "v * prod_list ns + offset ns vs < v * prod_list ns + prod_list ns"
    using Cons.IH by simp
  also have "\<dots> = Suc v * prod_list ns" by simp
  also have "\<dots> \<le> n * prod_list ns"
    using Cons.hyps(1) by (intro mult_le_mono1) simp
  finally show ?case by simp
qed

lemma multi_index_offset: "list_all2 (<) vs ns \<Longrightarrow> multi_index ns (offset ns vs) = vs"
proof (induction vs ns rule: list_all2_induct)
  case Nil
  then show ?case by simp
next
  case (Cons v vs n ns)
  have lt: "offset ns vs < prod_list ns" using Cons.hyps(2) by (rule offset_less)
  then have "(v * prod_list ns + offset ns vs) div prod_list ns = v"
    and "(v * prod_list ns + offset ns vs) mod prod_list ns = offset ns vs"
    by simp_all
  then show ?case using Cons.IH by simp
qed

lemma permutation_onto:
  assumes "\<forall>j<n. nat (P ! j) < n" "inj_on (\<lambda>j. nat (P ! j)) {0..<n}" "q < n"
  shows "\<exists>j<n. nat (P ! j) = q"
proof -
  have "(\<lambda>j. nat (P ! j)) ` {0..<n} \<subseteq> {0..<n}" using assms(1) by auto
  then have "(\<lambda>j. nat (P ! j)) ` {0..<n} = {0..<n}"
    using assms(2) by (intro endo_inj_surj) simp_all
  then have "q \<in> (\<lambda>j. nat (P ! j)) ` {0..<n}" using assms(3) by simp
  then show ?thesis by auto
qed

lemma permute_nth:
  assumes "length ns = n" "length vs = n"
    and "\<forall>j<n. nat (P ! j) < n" "inj_on (\<lambda>j. nat (P ! j)) {0..<n}"
    and "\<forall>j<n. vs ! j < ns ! j"
  shows "permute d ns P ! offset (permute_list P ns) (permute_list P vs) = d ! offset ns vs"
proof -
  let ?pns = "permute_list P ns"
  let ?pvs = "permute_list P vs"
  have lp: "length ?pns = n" "length ?pvs = n"
    using assms(1,2) by (simp_all add: permute_list_length)
  have at_ns: "?pns ! nat (P ! j) = ns ! j" if "j < n" for j
    using assms(1,3,4) that by (intro permute_list_nth) simp_all
  have at_vs: "?pvs ! nat (P ! j) = vs ! j" if "j < n" for j
    using assms(2,3,4) that by (intro permute_list_nth) simp_all
  have "?pvs ! q < ?pns ! q" if q: "q < n" for q
  proof -
    obtain j where j: "j < n" "nat (P ! j) = q"
      using permutation_onto [OF assms(3,4) q] by blast
    show ?thesis using at_ns [OF j(1)] at_vs [OF j(1)] assms(5) j by simp
  qed
  then have all2: "list_all2 (<) ?pvs ?pns"
    using lp by (simp add: list_all2_conv_all_nth)
  have lt: "offset ?pns ?pvs < prod_list ?pns" using all2 by (rule offset_less)
  have back_vals: "multi_index ?pns (offset ?pns ?pvs) = ?pvs" using all2 by (rule multi_index_offset)
  have "map (\<lambda>j. multi_index ?pns (offset ?pns ?pvs) ! nat (P ! j)) [0..<length ns]
          = map (\<lambda>j. vs ! j) [0..<length ns]"
    unfolding back_vals using at_vs assms(1) by (intro map_cong) simp_all
  also have "\<dots> = vs" using assms(1,2) map_nth [of vs] by simp
  finally have vals: "map (\<lambda>j. multi_index ?pns (offset ?pns ?pvs) ! nat (P ! j)) [0..<length ns] = vs" .
  have "permute d ns P ! offset ?pns ?pvs
          = d ! offset ns (map (\<lambda>j. multi_index ?pns (offset ?pns ?pvs) ! nat (P ! j)) [0..<length ns])"
    using lt by (simp add: permute_def Let_def)
  then show ?thesis by (simp only: vals)
qed

section \<open>Combining and uncombining again\<close>

lemma general_positions:
  assumes "distinct dis" "distinct cs" "set cs \<subseteq> set dis"
    and "\<forall>j<length dis. dis ! j \<in> set cs \<longrightarrow> P ! j = findindex cs (dis ! j)"
    and "\<forall>s<length (filter (\<lambda>x. x \<notin> set cs) dis).
           P ! nat (findindex dis (filter (\<lambda>x. x \<notin> set cs) dis ! s)) = int (length cs + s)"
    and "j < length dis"
  shows "nat (P ! j) < length dis \<and> (cs @ filter (\<lambda>x. x \<notin> set cs) dis) ! nat (P ! j) = dis ! j"
proof (cases "dis ! j \<in> set cs")
  case True
  let ?t = "nat (findindex cs (dis ! j))"
  have t: "0 \<le> findindex cs (dis ! j)" "?t < length cs" "cs ! ?t = dis ! j"
    using findindex_present [OF True] by simp_all
  have Pj: "nat (P ! j) = ?t" using assms(4,6) True by simp
  have "length cs \<le> length dis"
    using rest_length [OF assms(1,2,3)] by simp
  then show ?thesis
    using t by (simp add: Pj nth_append)
next
  case False
  let ?rest = "filter (\<lambda>x. x \<notin> set cs) dis"
  have "dis ! j \<in> set ?rest" using False assms(6) by simp
  then obtain s where s: "s < length ?rest" "?rest ! s = dis ! j"
    by (metis in_set_conv_nth)
  have "findindex dis (dis ! j) = int j"
    using assms(1,6) by (rule findindex_nth_distinct)
  then have "P ! j = int (length cs + s)"
    using assms(5) s by (metis nat_int)
  then have Pj: "nat (P ! j) = length cs + s" by simp
  have "length ?rest + length cs = length dis"
    using rest_length [OF assms(1,2,3)] .
  then show ?thesis
    using s by (simp add: Pj nth_append)
qed

lemma general_inj:
  assumes "distinct dis"
    and "\<forall>j<length dis. L ! nat (P ! j) = dis ! j"
  shows "inj_on (\<lambda>j. nat (P ! j)) {0..<length dis}"
proof (rule inj_onI)
  fix i j assume i: "i \<in> {0..<length dis}" and j: "j \<in> {0..<length dis}"
    and eq: "nat (P ! i) = nat (P ! j)"
  have "dis ! i = L ! nat (P ! i)" using assms(2) i by simp
  also have "\<dots> = dis ! j" using assms(2) j eq by simp
  finally show "i = j"
    using assms(1) i j by (simp add: nth_eq_iff_index_eq)
qed

lemma permute_list_eq:
  assumes "length L = length xs"
    and "\<forall>j<length xs. nat (P ! j) < length xs" "inj_on (\<lambda>j. nat (P ! j)) {0..<length xs}"
    and "\<forall>j<length xs. L ! nat (P ! j) = xs ! j"
  shows "permute_list P xs = L"
proof (rule nth_equalityI)
  show "length (permute_list P xs) = length L"
    using assms(1) by (simp add: permute_list_length)
next
  fix q assume "q < length (permute_list P xs)"
  then have q: "q < length xs" by (simp add: permute_list_length)
  obtain j where j: "j < length xs" "nat (P ! j) = q"
    using permutation_onto [OF assms(2,3) q] by blast
  have "permute_list P xs ! nat (P ! j) = xs ! j"
    using assms(2,3) j(1) by (rule permute_list_nth)
  then show "permute_list P xs ! q = L ! q"
    using assms(4) j by auto
qed

lemma elt_permute:
  assumes "\<forall>j<length dis. nat (P ! j) < length dis" "inj_on (\<lambda>j. nat (P ! j)) {0..<length dis}"
    and "\<forall>j<length dis. \<sigma> (dis ! j) < ind_m (dis ! j)"
  shows "elt (permute d (map ind_m dis) P) (permute_list P dis) \<sigma> = elt d dis \<sigma>"
proof -
  have "elt (permute d (map ind_m dis) P) (permute_list P dis) \<sigma>
          = permute d (map ind_m dis) P
              ! offset (permute_list P (map ind_m dis)) (permute_list P (map \<sigma> dis))"
    by (simp only: elt_def permute_list_map)
  also have "\<dots> = d ! offset (map ind_m dis) (map \<sigma> dis)"
    using assms by (intro permute_nth [where n = "length dis"]) simp_all
  finally show ?thesis by (simp only: elt_def)
qed

text \<open>
  C4: for a dense tensor (buffer \<open>d\<close>, IndexSet \<open>dis\<close>) and a Combiner IndexSet \<open>Cis\<close>,
  both without duplicate entries, with the composite index absent from \<open>dis\<close> and every
  constituent in \<open>dis\<close>, the buffer as long as the product of the extents: combine
  succeeds from a fresh mediator, and its IndexSet \<open>N\<close> holds the composite index in
  place of the constituents, with rank \<open>dis.r()+2-Cis.r()\<close>; combine on the resulting
  storage and \<open>N\<close> with the same \<open>Cis\<close> therefore uncombines: it succeeds and installs
  nothing; the final IndexSet has the indices of \<open>dis\<close>, each once, the final buffer is
  as long as the product of its extents, and at every assignment of values to the indices
  the final tensor has the element that the original has.
\<close>

theorem combine_uncombine_roundtrip:
  assumes "distinct dis" "distinct Cis" "2 \<le> length Cis" "Cis ! 0 \<notin> set dis"
    and "set (drop 1 Cis) \<subseteq> set dis" "nd m = None" "action m = NoAction"
    and "length (data d) = prod_list (map ind_m dis)"
  shows "\<exists>N m' d' N2.
           combine d dis Cis m = Inr (N, m')
           \<and> Cis ! 0 \<in> set N \<and> distinct N
           \<and> set N = insert (Cis ! 0) (set dis - set (drop 1 Cis))
           \<and> IndexSet_r N = IndexSet_r dis + 2 - IndexSet_r Cis
           \<and> result_store m' (StoreReal d) (StoreCombiner cmb) = StoreReal d'
           \<and> combine d' N Cis m2 = Inr (N2, m2)
           \<and> distinct N2 \<and> set N2 = set dis
           \<and> length (data d') = prod_list (map ind_m N2)
           \<and> (\<forall>\<sigma>. (\<forall>j<length dis. \<sigma> (dis ! j) < ind_m (dis ! j)) \<longrightarrow>
                  elt (data d') N2 \<sigma> = elt (data d) dis \<sigma>)"
proof -
  let ?cs = "drop 1 Cis"
  let ?k = "length Cis - 1"
  have ne: "Cis \<noteq> []" using assms(3) by auto
  have dcs: "distinct ?cs" using assms(2) by (rule distinct_drop)
  have in1: "Cis ! 1 \<in> set dis"
    using assms(3,5) by (metis Cons_nth_drop_Suc One_nat_def Suc_1 Suc_le_lessD list.set_intros(1) subsetD)
  let ?J = "nat (findindex dis (Cis ! 1))"
  have J: "?J < length dis" "Cis ! 1 \<notin> set (take ?J dis)"
    using findindex_present [OF in1] by simp_all
  have store: "result_store m (StoreReal d) (StoreCombiner cmb) = StoreReal d"
    using assms(6,7) by (simp add: result_store_def)
  have lrest: "length (filter (\<lambda>x. x \<notin> set ?cs) dis) + length ?cs = length dis"
    using rest_length [OF assms(1) dcs assms(5)] .
  show ?thesis
  proof (cases "take ?k (drop ?J dis) = ?cs")
    case True
    let ?N = "take ?J dis @ [Cis ! 0] @ drop (?J + length Cis - 1) dis"
    have c1: "combine d dis Cis m = Inr (?N, m)"
      using combine_contig_case [OF assms(3,4) J(2) True] .
    have lJ: "length (take ?J dis) = ?J" using J(1) by simp
    have a: "?J < length ?N" using lJ by simp
    have b: "?N ! ?J = Cis ! 0" using lJ by (simp add: nth_append)
    have c: "Cis ! 0 \<notin> set (take ?J ?N)"
      using assms(4) lJ by (auto dest: in_set_takeD)
    have t1: "take ?J ?N = take ?J dis" using lJ by simp
    have t2: "drop (Suc ?J) ?N = drop (?J + ?k) dis" using lJ assms(3) by simp
    have split: "take ?J dis @ take ?k (drop ?J dis) @ drop (?J + ?k) dis = dis"
      by (metis append_take_drop_id drop_drop add.commute)
    have "take ?J ?N @ drop 1 Cis @ drop (Suc ?J) ?N
            = take ?J dis @ take ?k (drop ?J dis) @ drop (?J + ?k) dis"
      by (simp only: t1 t2 True)
    then have N2: "take ?J ?N @ drop 1 Cis @ drop (Suc ?J) ?N = dis"
      by (simp only: split)
    have c2: "combine d ?N Cis m2 = Inr (dis, m2)"
      using combine_uncombine_case [OF ne a b c, of d m2] by (simp only: N2)
    have dsplit: "dis = take ?J dis @ ?cs @ drop (?J + ?k) dis"
      using split True by simp
    have dparts: "distinct (take ?J dis @ ?cs @ drop (?J + ?k) dis)"
      using assms(1) dsplit by simp
    have kk: "?J + length Cis - 1 = ?J + ?k" using assms(3) by simp
    have memN: "Cis ! 0 \<in> set ?N" by simp
    have dN: "distinct ?N"
      using dparts assms(4) unfolding kk
      by (auto dest: in_set_takeD in_set_dropD)
    have "set dis = set (take ?J dis) \<union> set ?cs \<union> set (drop (?J + ?k) dis)"
      using dsplit by (metis set_append sup_assoc)
    then have "set dis - set ?cs = set (take ?J dis) \<union> set (drop (?J + ?k) dis)"
      using dparts by auto
    then have sN: "set ?N = insert (Cis ! 0) (set dis - set ?cs)"
      unfolding kk by auto
    have fit: "?J + ?k \<le> length dis"
    proof -
      have "length (take ?k (drop ?J dis)) = ?k" by (simp only: True) simp
      then show ?thesis using assms(3) by (simp add: min_def split: if_splits)
    qed
    have rN: "IndexSet_r ?N = IndexSet_r dis + 2 - IndexSet_r Cis"
      using fit lJ assms(3) unfolding kk by (simp add: IndexSet_r_def)
    show ?thesis
      using c1 memN dN sN rN store c2 assms(1,8) by blast
  next
    case False
    let ?rest = "filter (\<lambda>x. x \<notin> set ?cs) dis"
    obtain P where P:
      "\<forall>j<length dis. dis ! j \<in> set ?cs \<longrightarrow> P ! j = findindex ?cs (dis ! j)"
      "\<forall>s<length ?rest. P ! nat (findindex dis (?rest ! s)) = int (length ?cs + s)"
      "combine d dis Cis m
         = Inr (Cis ! 0 # ?rest,
                makeNewData (StoreReal (ITReal (permute (data d) (map ind_m dis) P))) m)"
      using combine_general_case [OF assms(1,2,3,4,5) False, of d m] by blast
    let ?d' = "ITReal (permute (data d) (map ind_m dis) P)"
    let ?N = "Cis ! 0 # ?rest"
    have st: "result_store (makeNewData (StoreReal ?d') m) (StoreReal d) (StoreCombiner cmb)
                = StoreReal ?d'"
      by (simp add: result_store_def makeNewData_def)
    have c2: "combine ?d' ?N Cis m2 = Inr (take 0 ?N @ drop 1 Cis @ drop (Suc 0) ?N, m2)"
      by (rule combine_uncombine_case [OF ne]) simp_all
    have N2: "take 0 ?N @ drop 1 Cis @ drop (Suc 0) ?N = ?cs @ ?rest" by simp
    have memN: "Cis ! 0 \<in> set ?N" by simp
    have dN: "distinct ?N" using assms(1,4) by simp
    have sN: "set ?N = insert (Cis ! 0) (set dis - set ?cs)" by auto
    have rN: "IndexSet_r ?N = IndexSet_r dis + 2 - IndexSet_r Cis"
      using lrest assms(3) by (simp add: IndexSet_r_def)
    have pos: "nat (P ! j) < length dis \<and> (?cs @ ?rest) ! nat (P ! j) = dis ! j"
      if "j < length dis" for j
      using general_positions [OF assms(1) dcs assms(5) P(1,2) that] .
    have lt: "\<forall>j<length dis. nat (P ! j) < length dis" using pos by blast
    have at: "\<forall>j<length dis. (?cs @ ?rest) ! nat (P ! j) = dis ! j" using pos by blast
    have inj: "inj_on (\<lambda>j. nat (P ! j)) {0..<length dis}"
      using assms(1) at by (rule general_inj)
    have len: "length (?cs @ ?rest) = length dis"
      using lrest by simp
    have pl: "permute_list P dis = ?cs @ ?rest"
      using len lt inj at by (rule permute_list_eq)
    have dN2: "distinct (?cs @ ?rest)"
      using assms(1) dcs by auto
    have sN2: "set (?cs @ ?rest) = set dis"
      using assms(5) by auto
    have el: "elt (data ?d') (?cs @ ?rest) \<sigma> = elt (data d) dis \<sigma>"
      if "\<forall>j<length dis. \<sigma> (dis ! j) < ind_m (dis ! j)" for \<sigma>
      using elt_permute [OF lt inj that, of "data d"] by (simp add: pl)
    have "length (permute (data d) (map ind_m dis) P)
            = prod_list (permute_list P (map ind_m dis))"
      by (simp add: permute_def Let_def)
    then have sz: "length (data ?d') = prod_list (map ind_m (?cs @ ?rest))"
      by (simp only: permute_list_map pl ITReal.sel)
    show ?thesis
      using P(3) memN dN sN rN st c2 dN2 sN2 sz el unfolding N2 by blast
  qed
qed

text \<open>
  The tensor on (B,A) with extents 3 and 2 and the buffer 0,...,5: the constituents are
  out of order, so the buffer is permuted. The elements at (A=1,B=0) and at (A=0,B=2) are
  1 and 4 before and after; read in the final order, the buffer as it was would give 3
  and 2.
\<close>

theorem combine_uncombine_roundtrip_witness:
  "distinct [\<lparr>ind_id = 2, ind_m = 3, ind_plev = 0\<rparr>, \<lparr>ind_id = 1, ind_m = 2, ind_plev = 0\<rparr>]
   \<and> distinct [\<lparr>ind_id = 4, ind_m = 6, ind_plev = 0\<rparr>, \<lparr>ind_id = 1, ind_m = 2, ind_plev = 0\<rparr>,
               \<lparr>ind_id = 2, ind_m = 3, ind_plev = 0\<rparr>]
   \<and> \<lparr>ind_id = 4, ind_m = 6, ind_plev = 0\<rparr>
       \<notin> set [\<lparr>ind_id = 2, ind_m = 3, ind_plev = 0\<rparr>, \<lparr>ind_id = 1, ind_m = 2, ind_plev = 0\<rparr>]
   \<and> length [0, 1, 2, 3, 4, 5 :: real] = 3 * 2
   \<and> combine (ITReal [0, 1, 2, 3, 4, 5])
         [\<lparr>ind_id = 2, ind_m = 3, ind_plev = 0\<rparr>, \<lparr>ind_id = 1, ind_m = 2, ind_plev = 0\<rparr>]
         [\<lparr>ind_id = 4, ind_m = 6, ind_plev = 0\<rparr>, \<lparr>ind_id = 1, ind_m = 2, ind_plev = 0\<rparr>,
          \<lparr>ind_id = 2, ind_m = 3, ind_plev = 0\<rparr>]
         \<lparr>nd = None, action = NoAction\<rparr>
       = Inr ([\<lparr>ind_id = 4, ind_m = 6, ind_plev = 0\<rparr>],
              \<lparr>nd = Some (StoreReal (ITReal [0, 2, 4, 1, 3, 5])), action = NoAction\<rparr>)
   \<and> \<lparr>ind_id = 4, ind_m = 6, ind_plev = 0\<rparr> \<in> set [\<lparr>ind_id = 4, ind_m = 6, ind_plev = 0\<rparr>]
   \<and> combine (ITReal [0, 2, 4, 1, 3, 5])
         [\<lparr>ind_id = 4, ind_m = 6, ind_plev = 0\<rparr>]
         [\<lparr>ind_id = 4, ind_m = 6, ind_plev = 0\<rparr>, \<lparr>ind_id = 1, ind_m = 2, ind_plev = 0\<rparr>,
          \<lparr>ind_id = 2, ind_m = 3, ind_plev = 0\<rparr>]
         \<lparr>nd = None, action = NoAction\<rparr>
       = Inr ([\<lparr>ind_id = 1, ind_m = 2, ind_plev = 0\<rparr>, \<lparr>ind_id = 2, ind_m = 3, ind_plev = 0\<rparr>],
              \<lparr>nd = None, action = NoAction\<rparr>)
   \<and> elt [0, 2, 4, 1, 3, 5]
         [\<lparr>ind_id = 1, ind_m = 2, ind_plev = 0\<rparr>, \<lparr>ind_id = 2, ind_m = 3, ind_plev = 0\<rparr>]
         (\<lambda>I. if ind_id I = 1 then 1 else 0)
       = elt [0, 1, 2, 3, 4, 5]
           [\<lparr>ind_id = 2, ind_m = 3, ind_plev = 0\<rparr>, \<lparr>ind_id = 1, ind_m = 2, ind_plev = 0\<rparr>]
           (\<lambda>I. if ind_id I = 1 then 1 else 0)
   \<and> elt [0, 1, 2, 3, 4, 5]
         [\<lparr>ind_id = 2, ind_m = 3, ind_plev = 0\<rparr>, \<lparr>ind_id = 1, ind_m = 2, ind_plev = 0\<rparr>]
         (\<lambda>I. if ind_id I = 1 then 1 else 0) = 1
   \<and> elt [0, 1, 2, 3, 4, 5]
         [\<lparr>ind_id = 1, ind_m = 2, ind_plev = 0\<rparr>, \<lparr>ind_id = 2, ind_m = 3, ind_plev = 0\<rparr>]
         (\<lambda>I. if ind_id I = 1 then 1 else 0) = 3
   \<and> elt [0, 2, 4, 1, 3, 5]
         [\<lparr>ind_id = 1, ind_m = 2, ind_plev = 0\<rparr>, \<lparr>ind_id = 2, ind_m = 3, ind_plev = 0\<rparr>]
         (\<lambda>I. if ind_id I = 1 then 0 else 2)
       = elt [0, 1, 2, 3, 4, 5]
           [\<lparr>ind_id = 2, ind_m = 3, ind_plev = 0\<rparr>, \<lparr>ind_id = 1, ind_m = 2, ind_plev = 0\<rparr>]
           (\<lambda>I. if ind_id I = 1 then 0 else 2)
   \<and> elt [0, 1, 2, 3, 4, 5]
         [\<lparr>ind_id = 2, ind_m = 3, ind_plev = 0\<rparr>, \<lparr>ind_id = 1, ind_m = 2, ind_plev = 0\<rparr>]
         (\<lambda>I. if ind_id I = 1 then 0 else 2) = 4
   \<and> elt [0, 1, 2, 3, 4, 5]
         [\<lparr>ind_id = 1, ind_m = 2, ind_plev = 0\<rparr>, \<lparr>ind_id = 2, ind_m = 3, ind_plev = 0\<rparr>]
         (\<lambda>I. if ind_id I = 1 then 0 else 2) = 2"
proof -
  let ?A = "\<lparr>ind_id = 1, ind_m = 2, ind_plev = 0\<rparr>"
  let ?B = "\<lparr>ind_id = 2, ind_m = 3, ind_plev = 0\<rparr>"
  let ?K = "\<lparr>ind_id = 4, ind_m = 6, ind_plev = 0\<rparr>"
  let ?d = "ITReal [0, 1, 2, 3, 4, 5]"
  let ?m = "\<lparr>nd = None, action = NoAction\<rparr>"
  let ?s1 = "\<lambda>I. if ind_id I = 1 then 1 else (0::nat)"
  let ?s2 = "\<lambda>I. if ind_id I = 1 then 0 else (2::nat)"
  have h1: "distinct [?B, ?A]" and h2: "distinct [?K, ?A, ?B]" and h3: "2 \<le> length [?K, ?A, ?B]"
    and h4: "[?K, ?A, ?B] ! 0 \<notin> set [?B, ?A]" and h5: "set (drop 1 [?K, ?A, ?B]) \<subseteq> set [?B, ?A]"
    and h6: "nd ?m = None" and h7: "action ?m = NoAction"
    and h8: "length (data ?d) = prod_list (map ind_m [?B, ?A])"
    by simp_all
  obtain N m' d' N2 where r:
    "combine ?d [?B, ?A] [?K, ?A, ?B] ?m = Inr (N, m')"
    "[?K, ?A, ?B] ! 0 \<in> set N"
    "result_store m' (StoreReal ?d) (StoreCombiner ITCombiner) = StoreReal d'"
    "combine d' N [?K, ?A, ?B] ?m = Inr (N2, ?m)"
    "\<forall>\<sigma>. (\<forall>j<length [?B, ?A]. \<sigma> ([?B, ?A] ! j) < ind_m ([?B, ?A] ! j)) \<longrightarrow>
           elt (data d') N2 \<sigma> = elt (data ?d) [?B, ?A] \<sigma>"
    using combine_uncombine_roundtrip [OF h1 h2 h3 h4 h5 h6 h7 h8, of ITCombiner ?m] by blast
  have c1: "combine ?d [?B, ?A] [?K, ?A, ?B] ?m
              = Inr ([?K], \<lparr>nd = Some (StoreReal (ITReal [0, 2, 4, 1, 3, 5])), action = NoAction\<rparr>)"
    by code_simp
  have N: "N = [?K]" and m': "m' = \<lparr>nd = Some (StoreReal (ITReal [0, 2, 4, 1, 3, 5])), action = NoAction\<rparr>"
    using r(1) c1 by simp_all
  have mem: "?K \<in> set [?K]" using r(2) by (simp add: N)
  have d': "d' = ITReal [0, 2, 4, 1, 3, 5]"
    using r(3) by (simp add: m' result_store_def)
  have c2: "combine (ITReal [0, 2, 4, 1, 3, 5]) [?K] [?K, ?A, ?B] ?m = Inr ([?A, ?B], ?m)"
    by code_simp
  have N2: "N2 = [?A, ?B]" using r(4) c2 by (simp add: N d')
  have b1: "\<forall>j<length [?B, ?A]. ?s1 ([?B, ?A] ! j) < ind_m ([?B, ?A] ! j)"
    by (auto simp: less_Suc_eq numeral_2_eq_2)
  have b2: "\<forall>j<length [?B, ?A]. ?s2 ([?B, ?A] ! j) < ind_m ([?B, ?A] ! j)"
    by (auto simp: less_Suc_eq numeral_2_eq_2)
  have "elt (data d') N2 ?s1 = elt (data ?d) [?B, ?A] ?s1"
    using spec [OF r(5), of ?s1] b1 by (rule mp)
  then have e1: "elt [0, 2, 4, 1, 3, 5] [?A, ?B] ?s1 = elt [0, 1, 2, 3, 4, 5] [?B, ?A] ?s1"
    by (simp add: d' N2)
  have "elt (data d') N2 ?s2 = elt (data ?d) [?B, ?A] ?s2"
    using spec [OF r(5), of ?s2] b2 by (rule mp)
  then have e2: "elt [0, 2, 4, 1, 3, 5] [?A, ?B] ?s2 = elt [0, 1, 2, 3, 4, 5] [?B, ?A] ?s2"
    by (simp add: d' N2)
  have v: "elt [0, 1, 2, 3, 4, 5] [?B, ?A] ?s1 = 1" "elt [0, 1, 2, 3, 4, 5] [?A, ?B] ?s1 = 3"
    "elt [0, 1, 2, 3, 4, 5] [?B, ?A] ?s2 = 4" "elt [0, 1, 2, 3, 4, 5] [?A, ?B] ?s2 = 2"
    by (simp_all add: elt_def)
  show ?thesis
    using h1 h2 h4 c1 mem c2 e1 e2 v by simp
qed

end
